theory Spec2Isabelle
  imports Complex_Main
begin

section \<open>Terms of the formula manager\<close>

text \<open>
  The formula nodes (\<open>FNode\<close>) are built by the formula manager of the SMT library, which
  is not part of the repository. They are modelled as a free datatype, one constructor per
  node type used by \<open>hint.py\<close> and \<open>ineq.py\<close>. Nodes are hash-consed by the manager, so two
  nodes are the same object exactly when they are structurally equal: equality of the
  datatype stands for identity of nodes.

  A symbol carries its name, its type and a tag telling whether it is the next-state copy
  of a symbol.
\<close>

datatype ty = T_BOOL | T_INT | T_REAL

datatype fnode =
    NSymbol string ty bool
  | NBool bool
  | NInt int
  | NReal rat
  | NAnd "fnode list"
  | NOr "fnode list"
  | NNot fnode
  | NImplies fnode fnode
  | NIff fnode fnode
  | NEquals fnode fnode
  | NLE fnode fnode
  | NLT fnode fnode
  | NPlus "fnode list"
  | NMinus fnode fnode
  | NTimes "fnode list"
  | NDiv fnode fnode
  | NToReal fnode

datatype pyerror = AssertionError | IndexError | TypeError | KeyError

definition TRUE :: fnode where
  "TRUE = NBool True"

definition FALSE :: fnode where
  "FALSE = NBool False"

fun is_false :: "fnode \<Rightarrow> bool" where
  "is_false (NBool b) = (\<not> b)"
| "is_false _ = False"


fun is_symbol :: "fnode \<Rightarrow> bool" where
  "is_symbol (NSymbol n t x) = True"
| "is_symbol _ = False"

text \<open>
  \<open>mgr.And\<close> and \<open>mgr.Or\<close> take any number of arguments: none gives the neutral constant,
  one gives the argument itself, more give an n-ary node.
\<close>

fun mgr_And :: "fnode list \<Rightarrow> fnode" where
  "mgr_And [] = NBool True"
| "mgr_And [a] = a"
| "mgr_And as = NAnd as"

fun mgr_Or :: "fnode list \<Rightarrow> fnode" where
  "mgr_Or [] = NBool False"
| "mgr_Or [a] = a"
| "mgr_Or as = NOr as"

text \<open>
  Modelled from the spec: \<open>symb2next\<close> of \<open>expr_utils\<close>, the next-state renaming of a
  symbol. It is defined on symbols only.
\<close>

fun symb2next :: "fnode \<Rightarrow> pyerror + fnode" where
  "symb2next (NSymbol n t x) = Inr (NSymbol n t True)"
| "symb2next _ = Inl AssertionError"

section \<open>Python values\<close>

text \<open>Sequencing of computations that may raise.\<close>

fun sbind :: "pyerror + 'a \<Rightarrow> ('a \<Rightarrow> pyerror + 'b) \<Rightarrow> pyerror + 'b" where
  "sbind (Inl e) f = Inl e"
| "sbind (Inr a) f = f a"

fun smap :: "('a \<Rightarrow> pyerror + 'b) \<Rightarrow> 'a list \<Rightarrow> pyerror + 'b list" where
  "smap f [] = Inr []"
| "smap f (x # xs) = sbind (f x) (\<lambda>y. sbind (smap f xs) (\<lambda>ys. Inr (y # ys)))"

text \<open>\<open>xs[i]\<close>: a negative index counts from the end, an index out of range raises.\<close>

definition py_index :: "'a list \<Rightarrow> int \<Rightarrow> pyerror + 'a" where
  "py_index xs i =
     (let n = int (length xs); j = (if i < 0 then i + n else i)
      in if 0 \<le> j \<and> j < n then Inr (xs ! nat j) else Inl IndexError)"

text \<open>
  A \<open>dict\<close> keeps its keys unique and in insertion order: it is an association list.
  Storing under a key that is present replaces the value in place.
\<close>

type_synonym ('k, 'v) dict = "('k \<times> 'v) list"

fun dict_get :: "('k, 'v) dict \<Rightarrow> 'k \<Rightarrow> 'v option" where
  "dict_get [] k = None"
| "dict_get ((k', v) # d) k = (if k' = k then Some v else dict_get d k)"

fun dict_set :: "('k, 'v) dict \<Rightarrow> 'k \<Rightarrow> 'v \<Rightarrow> ('k, 'v) dict" where
  "dict_set [] k v = [(k, v)]"
| "dict_set ((k', v') # d) k v = (if k' = k then (k, v) # d else (k', v') # dict_set d k v)"

text \<open>
  \<open>d.pop(t, None)\<close> where the key \<open>t\<close> is a formula node and the keys of \<open>d\<close> are integers.
  A formula node keeps the default equality of objects (identity), so it is equal to no
  integer: \<open>int_eq_fnode\<close> is the comparison the lookup makes.
\<close>

definition int_eq_fnode :: "int \<Rightarrow> fnode \<Rightarrow> bool" where
  "int_eq_fnode k t = False"

definition dict_pop_fnode :: "(int, 'v) dict \<Rightarrow> fnode \<Rightarrow> (int, 'v) dict" where
  "dict_pop_fnode d t = filter (\<lambda>kv. \<not> int_eq_fnode (fst kv) t) d"

text \<open>
  A generator: the values it has yielded, and the exception that ended it, if one did.
\<close>

type_synonym gen = "fnode list \<times> pyerror option"

definition gen_seq :: "gen \<Rightarrow> gen \<Rightarrow> gen" where
  "gen_seq g h = (case snd g of Some e \<Rightarrow> g | None \<Rightarrow> (fst g @ fst h, snd h))"

definition gen_of :: "pyerror + fnode list \<Rightarrow> gen" where
  "gen_of r = (case r of Inl e \<Rightarrow> ([], Some e) | Inr ys \<Rightarrow> (ys, None))"

section \<open>Location\<close>

text \<open>
  \<open>RankFun\<close> is an opaque collaborator: what matters here are the four terms its predicates
  return.
\<close>

record RankFun =
  rf_is_ranked :: fnode
  rf_is_min :: fnode
  rf_is_const :: fnode
  rf_is_decr :: fnode

text \<open>
  The attributes of a \<open>Location\<close>. \<open>priv_rankT\<close> and \<open>priv_rf\<close> are the attributes
  \<open>_rankT\<close> and \<open>_rf\<close>, which exist only once \<open>set_rank\<close> has stored them.
\<close>

record Location =
  region :: fnode
  assume_t :: fnode
  stutterT :: fnode
  rankT :: fnode
  rf :: "RankFun option"
  progressT :: "(int, fnode) dict"
  priv_rankT :: "fnode option"
  priv_rf :: "RankFun option"

text \<open>\<open>Location.__init__\<close>: an omitted argument is \<open>None\<close>.\<close>

definition Location_init ::
  "fnode \<Rightarrow> fnode option \<Rightarrow> fnode option \<Rightarrow> fnode option \<Rightarrow> RankFun option \<Rightarrow>
   (int, fnode) dict option \<Rightarrow> Location" where
  "Location_init region0 assume0 stutterT0 rankT0 rf0 progressT0 =
     \<lparr> region = region0,
       assume_t = (case assume0 of Some a \<Rightarrow> a | None \<Rightarrow> TRUE),
       stutterT = (case stutterT0 of Some s \<Rightarrow> s | None \<Rightarrow> FALSE),
       rankT = (case rankT0 of Some r \<Rightarrow> r | None \<Rightarrow> FALSE),
       rf = rf0,
       progressT = (case progressT0 of Some d \<Rightarrow> d | None \<Rightarrow> []),
       priv_rankT = None,
       priv_rf = None \<rparr>"

definition ranked_region :: "Location \<Rightarrow> fnode" where
  "ranked_region l =
     (case rf l of None \<Rightarrow> FALSE | Some r \<Rightarrow> mgr_And [region l, rf_is_ranked r])"

definition minrf_region :: "Location \<Rightarrow> fnode" where
  "minrf_region l =
     (case rf l of None \<Rightarrow> region l | Some r \<Rightarrow> mgr_And [region l, rf_is_min r])"

definition dsts :: "Location \<Rightarrow> int list" where
  "dsts l = map fst (progressT l)"

definition set_rank :: "fnode \<Rightarrow> RankFun \<Rightarrow> Location \<Rightarrow> Location" where
  "set_rank trans0 r l = l\<lparr> priv_rankT := Some trans0, priv_rf := Some r \<rparr>"

definition progress :: "Location \<Rightarrow> int \<Rightarrow> fnode option" where
  "progress l dst = dict_get (progressT l) dst"

definition set_progress :: "int \<Rightarrow> fnode \<Rightarrow> Location \<Rightarrow> pyerror + Location" where
  "set_progress dst t l =
     (if \<not> dst \<ge> 0 then Inl AssertionError
      else if is_false t then Inr (l\<lparr> progressT := dict_pop_fnode (progressT l) t \<rparr>)
      else Inr (l\<lparr> progressT := dict_set (progressT l) dst t \<rparr>))"

subsection \<open>get_trans\<close>

text \<open>The assertions on the arguments that can fail on well-typed arguments.\<close>

definition get_trans_pre ::
  "Location \<Rightarrow> fnode set \<Rightarrow> fnode \<Rightarrow> fnode \<Rightarrow> fnode \<Rightarrow> fnode \<Rightarrow> bool" where
  "get_trans_pre l symbs is_stutter is_ranked is_progress is_rank_decr =
     ((\<forall>s\<in>symbs. is_symbol s) \<and>
      \<not> is_false is_stutter \<and>
      (rf l = None \<or> \<not> is_false is_ranked) \<and>
      \<not> is_false is_progress \<and>
      (is_false is_rank_decr \<or> is_symbol is_rank_decr) \<and>
      (\<not> is_false is_ranked \<or> is_false is_rank_decr) \<and>
      (is_false is_ranked \<or> \<not> is_false is_rank_decr))"

text \<open>
  The list \<open>t_type\<close> of the self-transition and \<open>min_rf\<close>, as they stand when
  \<open>x_locs\<close> gets its first element.
\<close>

definition cfg_t_type ::
  "Location \<Rightarrow> int \<Rightarrow> fnode \<Rightarrow> fnode \<Rightarrow> fnode \<Rightarrow> pyerror + (fnode list \<times> fnode option)" where
  "cfg_t_type l idx is_stutter is_ranked is_progress =
     (let t1 = (if \<not> is_false (stutterT l) then [is_stutter] else []) in
      sbind
        (if \<not> is_false (rankT l) then
           (if is_false is_ranked then Inl AssertionError
            else case rf l of
                   None \<Rightarrow> Inl AssertionError
                 | Some r \<Rightarrow> Inr (t1 @ [mgr_And [is_ranked, rf_is_ranked r]], Some (rf_is_min r)))
         else Inr (t1, None))
        (\<lambda>(t2, min_rf).
           Inr (if progress l idx \<noteq> None then
                  t2 @ [case min_rf of Some m \<Rightarrow> mgr_And [is_progress, m] | None \<Rightarrow> is_progress]
                else t2,
                min_rf)))"

text \<open>The first clause: \<open>loc -> \/ (x_loc & \/ trans_types)\<close>.\<close>

definition cfg_clause ::
  "Location \<Rightarrow> int \<Rightarrow> fnode list \<Rightarrow> fnode list \<Rightarrow> fnode \<Rightarrow> fnode \<Rightarrow> fnode \<Rightarrow>
   pyerror + fnode list" where
  "cfg_clause l idx lvals x_lvals is_stutter is_ranked is_progress =
     sbind (cfg_t_type l idx is_stutter is_ranked is_progress) (\<lambda>(t_type, min_rf).
     sbind (py_index x_lvals idx) (\<lambda>x_idx.
     sbind (smap (\<lambda>dst. sbind (py_index x_lvals dst) (\<lambda>x_dst.
                    Inr (case min_rf of
                           None \<Rightarrow> mgr_And [x_dst, is_progress]
                         | Some m \<Rightarrow> mgr_And [x_dst, is_progress, m])))
             (filter (\<lambda>dst. dst \<noteq> idx) (map fst (progressT l)))) (\<lambda>others.
     sbind (py_index lvals idx) (\<lambda>l_idx.
       Inr [NImplies l_idx (mgr_Or (mgr_And [x_idx, mgr_Or t_type] # others))]))))"

text \<open>\<open>loc & loc' & is_stutter -> stutterT & rf' = rf\<close>\<close>

definition stutter_clause ::
  "Location \<Rightarrow> int \<Rightarrow> fnode list \<Rightarrow> fnode list \<Rightarrow> fnode \<Rightarrow> pyerror + fnode list" where
  "stutter_clause l idx lvals x_lvals is_stutter =
     (if \<not> is_false (stutterT l) then
        sbind (py_index lvals idx) (\<lambda>l_idx.
        sbind (py_index x_lvals idx) (\<lambda>x_idx.
          Inr [NImplies (mgr_And [l_idx, x_idx, is_stutter])
                 (case rf l of
                    Some r \<Rightarrow> mgr_And [stutterT l, rf_is_const r]
                  | None \<Rightarrow> stutterT l)]))
      else Inr [])"

text \<open>\<open>loc & loc' & is_ranked -> rankT & rf' < rf\<close>\<close>

definition ranked_clause ::
  "Location \<Rightarrow> int \<Rightarrow> fnode list \<Rightarrow> fnode list \<Rightarrow> fnode \<Rightarrow> pyerror + fnode list" where
  "ranked_clause l idx lvals x_lvals is_ranked =
     (if \<not> is_false (rankT l) then
        (if is_false is_ranked then Inl AssertionError
         else case rf l of
                None \<Rightarrow> Inl AssertionError
              | Some r \<Rightarrow>
                  sbind (py_index lvals idx) (\<lambda>l_idx.
                  sbind (py_index x_lvals idx) (\<lambda>x_idx.
                    Inr [NImplies (mgr_And [l_idx, x_idx, is_ranked])
                           (mgr_And [rankT l, rf_is_ranked r, rf_is_decr r])])))
      else Inr [])"

text \<open>\<open>loc & loc' & is_progress -> progressT\<close>, one clause for each item of the dict.\<close>

fun progress_clauses ::
  "(int, fnode) dict \<Rightarrow> int \<Rightarrow> fnode list \<Rightarrow> fnode list \<Rightarrow> fnode \<Rightarrow> gen" where
  "progress_clauses [] idx lvals x_lvals is_progress = ([], None)"
| "progress_clauses ((dst, progress_t) # d) idx lvals x_lvals is_progress =
     gen_seq
       (gen_of
          (if is_false progress_t then Inl AssertionError
           else sbind (py_index lvals idx) (\<lambda>l_idx.
                sbind (py_index x_lvals dst) (\<lambda>x_dst.
                  Inr [NImplies (mgr_And [l_idx, x_dst, is_progress]) progress_t]))))
       (progress_clauses d idx lvals x_lvals is_progress)"

text \<open>The two clauses that propagate the rank-decrease flag.\<close>

definition rank_decr_clauses ::
  "Location \<Rightarrow> int \<Rightarrow> fnode list \<Rightarrow> fnode \<Rightarrow> fnode \<Rightarrow> gen" where
  "rank_decr_clauses l idx lvals is_ranked is_rank_decr =
     (if \<not> is_false is_rank_decr \<and> \<not> is_false is_ranked then
        (case rf l of
           None \<Rightarrow> ([], Some AssertionError)
         | Some r \<Rightarrow>
             (case symb2next is_rank_decr of
                Inl e \<Rightarrow> ([], Some e)
              | Inr x_is_rank_decr \<Rightarrow>
                  gen_seq
                    (gen_of (sbind (py_index lvals idx) (\<lambda>l_idx.
                       Inr [NImplies (mgr_And [l_idx, is_rank_decr, rf_is_ranked r])
                              x_is_rank_decr])))
                    (gen_of (sbind (py_index lvals idx) (\<lambda>l_idx.
                       Inr [NImplies (mgr_And [l_idx, is_rank_decr, rf_is_min r])
                              (NNot x_is_rank_decr)])))))
      else ([], None))"

definition get_trans ::
  "Location \<Rightarrow> int \<Rightarrow> fnode list \<Rightarrow> fnode list \<Rightarrow> fnode set \<Rightarrow> Location list \<Rightarrow>
   fnode \<Rightarrow> fnode \<Rightarrow> fnode \<Rightarrow> fnode \<Rightarrow> gen" where
  "get_trans l idx lvals x_lvals symbs locs is_stutter is_ranked is_progress is_rank_decr =
     (if \<not> get_trans_pre l symbs is_stutter is_ranked is_progress is_rank_decr
      then ([], Some AssertionError)
      else
        gen_seq (gen_of (cfg_clause l idx lvals x_lvals is_stutter is_ranked is_progress))
       (gen_seq (gen_of (stutter_clause l idx lvals x_lvals is_stutter))
       (gen_seq (gen_of (ranked_clause l idx lvals x_lvals is_ranked))
       (gen_seq (progress_clauses (progressT l) idx lvals x_lvals is_progress)
                (rank_decr_clauses l idx lvals is_ranked is_rank_decr)))))"

section \<open>Hint\<close>

text \<open>
  Modelled from the spec: \<open>symb_is_curr\<close> of \<open>expr_utils\<close>, true of a symbol that is not
  a next-state copy.
\<close>

fun symb_is_curr :: "fnode \<Rightarrow> bool" where
  "symb_is_curr (NSymbol n t x) = (\<not> x)"
| "symb_is_curr _ = False"

text \<open>
  Modelled from the spec: \<open>to_next\<close> of \<open>expr_utils\<close>, the next-state renaming: every
  occurrence of a symbol of \<open>symbs\<close> in the term is replaced by its next-state copy.
\<close>

fun to_next :: "fnode set \<Rightarrow> fnode \<Rightarrow> fnode" where
  "to_next symbs (NSymbol n t x) =
     (if NSymbol n t x \<in> symbs then NSymbol n t True else NSymbol n t x)"
| "to_next symbs (NBool b) = NBool b"
| "to_next symbs (NInt i) = NInt i"
| "to_next symbs (NReal q) = NReal q"
| "to_next symbs (NAnd as) = NAnd (map (to_next symbs) as)"
| "to_next symbs (NOr as) = NOr (map (to_next symbs) as)"
| "to_next symbs (NNot a) = NNot (to_next symbs a)"
| "to_next symbs (NImplies a b) = NImplies (to_next symbs a) (to_next symbs b)"
| "to_next symbs (NIff a b) = NIff (to_next symbs a) (to_next symbs b)"
| "to_next symbs (NEquals a b) = NEquals (to_next symbs a) (to_next symbs b)"
| "to_next symbs (NLE a b) = NLE (to_next symbs a) (to_next symbs b)"
| "to_next symbs (NLT a b) = NLT (to_next symbs a) (to_next symbs b)"
| "to_next symbs (NPlus as) = NPlus (map (to_next symbs) as)"
| "to_next symbs (NMinus a b) = NMinus (to_next symbs a) (to_next symbs b)"
| "to_next symbs (NTimes as) = NTimes (map (to_next symbs) as)"
| "to_next symbs (NDiv a b) = NDiv (to_next symbs a) (to_next symbs b)"
| "to_next symbs (NToReal a) = NToReal (to_next symbs a)"

text \<open>
  Modelled from the spec: \<open>TransSystem\<close> of \<open>trans_system.py\<close>, the fragment handed to the
  driver: its symbols and the conjuncts of its initial and transition predicates.
\<close>

record TransSystem =
  ts_symbs :: "fnode set"
  ts_init :: "fnode list"
  ts_trans :: "fnode list"

text \<open>
  The attributes of a \<open>Hint\<close>. \<open>__init__\<close> sets \<open>t_progress\<close>, \<open>get_trans_system\<close>
  sets \<open>t_is_progress\<close>.
\<close>

record Hint =
  name :: string
  owned_symbs :: "fnode set"
  all_symbs :: "fnode set"
  locs :: "Location list"
  ts_loc_symbs :: "fnode list option"
  ts_lvals :: "fnode list option"
  trans_type_symbs :: "fnode list option"
  t_is_stutter :: "fnode option"
  t_is_ranked :: "fnode option"
  t_progress :: "fnode option"
  t_is_progress :: "fnode option"
  is_rank_decr :: "fnode option"

definition Hint_init :: "string \<Rightarrow> fnode set \<Rightarrow> fnode set \<Rightarrow> pyerror + Hint" where
  "Hint_init name0 owned_symbs0 all_symbs0 =
     (if \<not> length name0 > 0 then Inl AssertionError
      else if \<not> (\<forall>s\<in>owned_symbs0. is_symbol s) then Inl AssertionError
      else if \<not> (\<forall>s\<in>owned_symbs0. symb_is_curr s) then Inl AssertionError
      else if \<not> (\<forall>s\<in>all_symbs0. is_symbol s) then Inl AssertionError
      else if \<not> (\<forall>s\<in>all_symbs0. symb_is_curr s) then Inl AssertionError
      else if \<not> owned_symbs0 \<subseteq> all_symbs0 then Inl AssertionError
      else Inr \<lparr> name = name0, owned_symbs = owned_symbs0, all_symbs = all_symbs0,
                 locs = [], ts_loc_symbs = None, ts_lvals = None, trans_type_symbs = None,
                 t_is_stutter = None, t_is_ranked = None, t_progress = None,
                 t_is_progress = None, is_rank_decr = None \<rparr>)"

definition add :: "Location \<Rightarrow> Hint \<Rightarrow> pyerror + Hint" where
  "add loc h =
     (if ts_loc_symbs h \<noteq> None then Inl AssertionError
      else if ts_lvals h \<noteq> None then Inl AssertionError
      else Inr (h\<lparr> locs := locs h @ [loc] \<rparr>))"

definition set_locs :: "Location list \<Rightarrow> Hint \<Rightarrow> pyerror + Hint" where
  "set_locs locs0 h =
     (if ts_loc_symbs h \<noteq> None then Inl AssertionError
      else if ts_lvals h \<noteq> None then Inl AssertionError
      else Inr (h\<lparr> locs := locs0 \<rparr>))"

subsection \<open>get_trans_system\<close>

text \<open>
  \<open>new_enum\<close> of \<open>expr_utils\<close> is not part of the sources at hand: it is a parameter,
  called with the prefix of the fresh symbols and the number of values, and returning the
  fresh symbols and the terms of the values.
\<close>

type_synonym new_enum_t = "string \<Rightarrow> nat \<Rightarrow> pyerror + (fnode list \<times> fnode list)"

text \<open>
  The first block of \<open>get_trans_system\<close>: the encodings are allocated if
  \<open>ts_loc_symbs\<close> is still \<open>None\<close>. The attributes assigned before an exception stay
  assigned.
\<close>

definition alloc_enums :: "new_enum_t \<Rightarrow> Hint \<Rightarrow> (pyerror + unit) \<times> Hint" where
  "alloc_enums new_enum h =
     (case ts_loc_symbs h of
        Some ss \<Rightarrow> (Inr (), h)
      | None \<Rightarrow>
          if ts_lvals h \<noteq> None then (Inl AssertionError, h)
          else
            (case new_enum (name h @ ''_'') (length (locs h) + 1) of
               Inl e \<Rightarrow> (Inl e, h)
             | Inr (loc_symbs, lvals) \<Rightarrow>
                 let h1 = h\<lparr> ts_loc_symbs := Some loc_symbs, ts_lvals := Some lvals \<rparr> in
                 if length lvals \<noteq> length (locs h) + 1 then (Inl AssertionError, h1)
                 else
                   (case new_enum (name h @ ''_type_'') 3 of
                      Inl e \<Rightarrow> (Inl e, h1)
                    | Inr (type_symbs, type_vals) \<Rightarrow>
                        let h2 = h1\<lparr> trans_type_symbs := Some type_symbs \<rparr> in
                        if length type_vals \<noteq> 3 then (Inl AssertionError, h2)
                        else (Inr (),
                              h2\<lparr> t_is_stutter := Some (type_vals ! 0),
                                  t_is_ranked := Some (type_vals ! 1),
                                  t_is_progress := Some (type_vals ! 2) \<rparr>))))"

text \<open>The clauses of all locations, chained: the first exception ends the chain.\<close>

fun locs_trans ::
  "(nat \<times> Location) list \<Rightarrow> fnode list \<Rightarrow> fnode list \<Rightarrow> fnode set \<Rightarrow> Location list \<Rightarrow>
   fnode \<Rightarrow> fnode \<Rightarrow> fnode \<Rightarrow> fnode \<Rightarrow> gen" where
  "locs_trans [] lvals x_lvals symbs ls is_stutter is_ranked is_progress is_rank_decr0 =
     ([], None)"
| "locs_trans ((idx, loc) # rest) lvals x_lvals symbs ls is_stutter is_ranked is_progress
     is_rank_decr0 =
     gen_seq
       (get_trans loc (int idx) lvals x_lvals symbs ls is_stutter is_ranked is_progress
          is_rank_decr0)
       (locs_trans rest lvals x_lvals symbs ls is_stutter is_ranked is_progress is_rank_decr0)"

text \<open>
  The body of \<open>get_trans_system\<close> once the encodings, the RANKED selector and the
  rank-decrease flag are fixed. \<open>symbs0\<close> is the set of the fresh symbols and \<open>active\<close>.
\<close>

definition build_trans_system ::
  "Hint \<Rightarrow> fnode \<Rightarrow> fnode list \<Rightarrow> fnode set \<Rightarrow> fnode \<Rightarrow> fnode \<Rightarrow> fnode \<Rightarrow> fnode \<Rightarrow>
   pyerror + (TransSystem \<times> fnode)" where
  "build_trans_system h active lvals symbs0 is_stutter is_ranked is_progress is_rank_decr0 =
     (let x_lvals = map (to_next symbs0) lvals;
          symbs = all_symbs h \<union> symbs0 in
      sbind (py_index lvals (- 1)) (\<lambda>inactive.
      sbind (py_index x_lvals (- 1)) (\<lambda>x_inactive.
        let x_t_is_stutter = to_next symbs is_stutter;
            init1 = map (\<lambda>(l_val, loc). NImplies l_val (mgr_And [region loc, assume_t loc]))
                      (zip lvals (locs h))
                    @ [mgr_Or lvals];
            trans1 = map (to_next symbs) init1;
            n_active = NNot active;
            init2 = init1 @ [NImplies n_active (mgr_And [inactive, is_stutter])];
            init3 = (if \<not> is_false is_rank_decr0
                     then init2 @ [NIff is_rank_decr0 is_ranked] else init2);
            trans2 = trans1 @ [NImplies n_active (mgr_And [x_inactive, x_t_is_stutter])]
        in
        sbind (if \<not> is_false is_rank_decr0 then
                 sbind (symb2next is_rank_decr0) (\<lambda>x_is_rank_decr.
                   Inr (trans2 @ [NImplies is_ranked x_is_rank_decr,
                                  NImplies x_is_rank_decr (mgr_Or [is_rank_decr0, is_ranked])]))
               else Inr trans2) (\<lambda>trans3.
        case locs_trans (enumerate 0 (locs h)) lvals x_lvals symbs (locs h)
               is_stutter is_ranked is_progress is_rank_decr0 of
          (cs, Some e) \<Rightarrow> Inl e
        | (cs, None) \<Rightarrow>
            Inr (\<lparr> ts_symbs = symbs, ts_init = init3, ts_trans = trans3 @ cs \<rparr>,
                 NNot inactive)))))"

text \<open>
  \<open>get_trans_system\<close> returns its result, or the exception raised, and the hint with the
  attributes it has assigned.
\<close>

definition get_trans_system ::
  "new_enum_t \<Rightarrow> fnode \<Rightarrow> Hint \<Rightarrow> (pyerror + (TransSystem \<times> fnode)) \<times> Hint" where
  "get_trans_system new_enum active h =
     (if \<not> is_symbol active then (Inl AssertionError, h)
      else
        case alloc_enums new_enum h of
          (Inl e, h1) \<Rightarrow> (Inl e, h1)
        | (Inr u, h1) \<Rightarrow>
            (case (ts_loc_symbs h1, ts_lvals h1, trans_type_symbs h1,
                   t_is_stutter h1, t_is_ranked h1, t_is_progress h1) of
               (Some loc_symbs, Some lvals, Some type_symbs,
                Some is_stutter, Some is_ranked, Some is_progress) \<Rightarrow>
                 let symbs0 = insert active (set loc_symbs \<union> set type_symbs) in
                 if list_all (\<lambda>loc. rf loc = None) (locs h1) then
                   (if \<not> list_all (\<lambda>loc. is_false (rankT loc)) (locs h1)
                    then (Inl AssertionError, h1)
                    else
                      let h2 = h1\<lparr> t_is_ranked := Some FALSE, is_rank_decr := Some FALSE \<rparr> in
                      (build_trans_system h2 active lvals symbs0
                         is_stutter FALSE is_progress FALSE, h2))
                 else
                   let d = NSymbol (''_'' @ name h1 @ ''_dec_rank'') T_BOOL False;
                       h2 = h1\<lparr> is_rank_decr := Some d \<rparr> in
                   (build_trans_system h2 active lvals (insert d symbs0)
                      is_stutter is_ranked is_progress d, h2)
             | _ \<Rightarrow> (Inl AssertionError, h1)))"

text \<open>
  The calls a client can make on a hint, and the hint each leaves behind: a call that
  raises leaves the attributes it had assigned before.
\<close>

datatype hint_op = Add Location | SetLocs "Location list" | GetTransSystem fnode

fun apply_op :: "new_enum_t \<Rightarrow> Hint \<Rightarrow> hint_op \<Rightarrow> Hint" where
  "apply_op new_enum h (Add loc) = (case add loc h of Inl e \<Rightarrow> h | Inr h' \<Rightarrow> h')"
| "apply_op new_enum h (SetLocs ls) = (case set_locs ls h of Inl e \<Rightarrow> h | Inr h' \<Rightarrow> h')"
| "apply_op new_enum h (GetTransSystem active) = snd (get_trans_system new_enum active h)"

section \<open>Meaning of terms\<close>

text \<open>
  \<open>get_type\<close> is the type the type checker of the library gives a well-typed term
  (\<open>env.stc.get_type\<close>): an arithmetic node has the type of its arguments.
\<close>

fun get_type :: "fnode \<Rightarrow> ty" where
  "get_type (NSymbol n t x) = t"
| "get_type (NInt i) = T_INT"
| "get_type (NReal q) = T_REAL"
| "get_type (NPlus as) = (case as of [] \<Rightarrow> T_REAL | a # _ \<Rightarrow> get_type a)"
| "get_type (NMinus a b) = get_type a"
| "get_type (NTimes as) = (case as of [] \<Rightarrow> T_REAL | a # _ \<Rightarrow> get_type a)"
| "get_type (NDiv a b) = get_type a"
| "get_type (NToReal a) = T_REAL"
| "get_type _ = T_BOOL"

text \<open>
  A valuation gives every symbol, by its name and its next-state tag, a value, and
  interprets division: the value of a quotient is read from the valuation, at the type of
  the dividend and the values of the two arguments. The terms are never evaluated by the
  code, and no division is built into their value here: what is proved of the value of a
  term holds for every interpretation of division. The value of a term is a rational: an
  integer is the rational it embeds to, a boolean is \<open>1\<close> or \<open>0\<close>.
\<close>

record valuation =
  sym_val :: "string \<Rightarrow> bool \<Rightarrow> rat"
  quot_val :: "ty \<Rightarrow> rat \<Rightarrow> rat \<Rightarrow> rat"

fun eval :: "valuation \<Rightarrow> fnode \<Rightarrow> rat" where
  "eval v (NSymbol n t x) = sym_val v n x"
| "eval v (NBool b) = of_bool b"
| "eval v (NInt i) = of_int i"
| "eval v (NReal q) = q"
| "eval v (NAnd as) = of_bool (list_all (\<lambda>a. eval v a \<noteq> 0) as)"
| "eval v (NOr as) = of_bool (list_ex (\<lambda>a. eval v a \<noteq> 0) as)"
| "eval v (NNot a) = of_bool (eval v a = 0)"
| "eval v (NImplies a b) = of_bool (eval v a = 0 \<or> eval v b \<noteq> 0)"
| "eval v (NIff a b) = of_bool ((eval v a \<noteq> 0) = (eval v b \<noteq> 0))"
| "eval v (NEquals a b) = of_bool (eval v a = eval v b)"
| "eval v (NLE a b) = of_bool (eval v a \<le> eval v b)"
| "eval v (NLT a b) = of_bool (eval v a < eval v b)"
| "eval v (NPlus as) = sum_list (map (eval v) as)"
| "eval v (NMinus a b) = eval v a - eval v b"
| "eval v (NTimes as) = prod_list (map (eval v) as)"
| "eval v (NDiv a b) = quot_val v (get_type a) (eval v a) (eval v b)"
| "eval v (NToReal a) = eval v a"

definition holds :: "valuation \<Rightarrow> fnode \<Rightarrow> bool" where
  "holds v f = (eval v f \<noteq> 0)"

subsection \<open>Runs of a transition system\<close>

text \<open>
  A run is a sequence of states, each giving a value to every symbol name, under one
  interpretation \<open>q\<close> of division. At step \<open>k\<close> the current-state symbols read state \<open>k\<close>
  and the next-state symbols read state \<open>k + 1\<close>. The first state satisfies the initial
  predicates and every step satisfies the transition predicates.
\<close>

type_synonym run = "nat \<Rightarrow> string \<Rightarrow> rat"

definition step_val :: "(ty \<Rightarrow> rat \<Rightarrow> rat \<Rightarrow> rat) \<Rightarrow> run \<Rightarrow> nat \<Rightarrow> valuation" where
  "step_val q \<sigma> k =
     \<lparr> sym_val = (\<lambda>n x. if x then \<sigma> (Suc k) n else \<sigma> k n), quot_val = q \<rparr>"

definition is_run :: "(ty \<Rightarrow> rat \<Rightarrow> rat \<Rightarrow> rat) \<Rightarrow> TransSystem \<Rightarrow> run \<Rightarrow> bool" where
  "is_run q ts \<sigma> =
     (list_all (holds (step_val q \<sigma> 0)) (ts_init ts) \<and>
      (\<forall>k. list_all (holds (step_val q \<sigma> k)) (ts_trans ts)))"

subsection \<open>A one-hot encoding and a small hint\<close>

fun nat_str :: "nat \<Rightarrow> string" where
  "nat_str n =
     (if n < 10 then [char_of (48 + n)]
      else nat_str (n div 10) @ [char_of (48 + n mod 10)])"

text \<open>
  Modelled from the spec: \<open>new_enum\<close> of \<open>expr_utils\<close> as a one-hot encoding: one fresh
  boolean symbol for each value, and the term of value \<open>i\<close> says that symbol \<open>i\<close> is true
  and every other symbol is false.
\<close>

definition new_enum_onehot :: new_enum_t where
  "new_enum_onehot prefix n =
     (let symbs = map (\<lambda>i. NSymbol (prefix @ nat_str i) T_BOOL False) [0..<n] in
      Inr (symbs,
           map (\<lambda>i. mgr_And (map (\<lambda>j. if j = i then symbs ! j else NNot (symbs ! j)) [0..<n]))
             [0..<n]))"

text \<open>
  A hint that owns the integer symbol \<open>x\<close>, with one location whose stutter transition
  keeps \<open>x\<close>; and a sequence of states in which \<open>active\<close> is false, the location value is
  the inactive one, the transition type is STUTTER, and \<open>x\<close> counts the steps.
\<close>

definition hint0 :: Hint where
  "hint0 =
     \<lparr> name = ''h'',
       owned_symbs = {NSymbol ''x'' T_INT False},
       all_symbs = {NSymbol ''x'' T_INT False},
       locs = [Location_init TRUE None
                 (Some (NEquals (NSymbol ''x'' T_INT True) (NSymbol ''x'' T_INT False)))
                 None None None],
       ts_loc_symbs = None, ts_lvals = None, trans_type_symbs = None,
       t_is_stutter = None, t_is_ranked = None, t_progress = None,
       t_is_progress = None, is_rank_decr = None \<rparr>"

text \<open>An interpretation of division: the division of the rationals.\<close>

definition exact_quot :: "ty \<Rightarrow> rat \<Rightarrow> rat \<Rightarrow> rat" where
  "exact_quot t a b = a / b"

definition run0 :: run where
  "run0 k n =
     (if n = ''x'' then of_nat k
      else if n = ''h_1'' \<or> n = ''h_type_0'' then 1
      else 0)"

section \<open>Expr\<close>

subsection \<open>Terms: tests, constants, free variables\<close>

fun is_constant :: "fnode \<Rightarrow> bool" where
  "is_constant (NBool b) = True"
| "is_constant (NInt i) = True"
| "is_constant (NReal q) = True"
| "is_constant _ = False"

text \<open>\<open>FNode.is_one\<close>: the integer or real constant \<open>1\<close>.\<close>

fun is_one_fnode :: "fnode \<Rightarrow> bool" where
  "is_one_fnode (NInt i) = (i = 1)"
| "is_one_fnode (NReal q) = (q = 1)"
| "is_one_fnode _ = False"

fun get_free_vars :: "fnode \<Rightarrow> fnode set" where
  "get_free_vars (NSymbol n t x) = {NSymbol n t x}"
| "get_free_vars (NBool b) = {}"
| "get_free_vars (NInt i) = {}"
| "get_free_vars (NReal q) = {}"
| "get_free_vars (NAnd as) = \<Union> (get_free_vars ` set as)"
| "get_free_vars (NOr as) = \<Union> (get_free_vars ` set as)"
| "get_free_vars (NNot a) = get_free_vars a"
| "get_free_vars (NImplies a b) = get_free_vars a \<union> get_free_vars b"
| "get_free_vars (NIff a b) = get_free_vars a \<union> get_free_vars b"
| "get_free_vars (NEquals a b) = get_free_vars a \<union> get_free_vars b"
| "get_free_vars (NLE a b) = get_free_vars a \<union> get_free_vars b"
| "get_free_vars (NLT a b) = get_free_vars a \<union> get_free_vars b"
| "get_free_vars (NPlus as) = \<Union> (get_free_vars ` set as)"
| "get_free_vars (NMinus a b) = get_free_vars a \<union> get_free_vars b"
| "get_free_vars (NTimes as) = \<Union> (get_free_vars ` set as)"
| "get_free_vars (NDiv a b) = get_free_vars a \<union> get_free_vars b"
| "get_free_vars (NToReal a) = get_free_vars a"


fun mgr_Times :: "fnode list \<Rightarrow> pyerror + fnode" where
  "mgr_Times [] = Inl TypeError"
| "mgr_Times [a] = Inr a"
| "mgr_Times as = Inr (NTimes as)"

text \<open>
  \<open>FNode.constant_value\<close>: the payload of a constant. The payload of a node that is not
  a constant is not a number, and the arithmetic made on it raises.
\<close>

fun constant_value :: "fnode \<Rightarrow> pyerror + rat" where
  "constant_value (NBool b) = Inr (of_bool b)"
| "constant_value (NInt i) = Inr (of_int i)"
| "constant_value (NReal q) = Inr q"
| "constant_value _ = Inl TypeError"

text \<open>
  The coefficients are Python integers or fractions: rationals here. \<open>self.number\<close> is
  \<open>mgr.Real\<close> for a real expression and \<open>mgr.Int\<close> for an integer one; \<open>mgr.Int\<close> accepts
  integers only. \<open>number_int\<close> is \<open>self.number\<close> on an integer literal, and
  \<open>is_integer\<close> tells the rationals that stand for a Python integer.
\<close>

definition number_int :: "ty \<Rightarrow> int \<Rightarrow> fnode" where
  "number_int t i = (if t = T_REAL then NReal (of_int i) else NInt i)"

definition is_integer :: "rat \<Rightarrow> bool" where
  "is_integer q = (of_int \<lfloor>q\<rfloor> = q)"

definition number :: "ty \<Rightarrow> rat \<Rightarrow> pyerror + fnode" where
  "number t q =
     (if t = T_REAL then Inr (NReal q)
      else if is_integer q then Inr (NInt \<lfloor>q\<rfloor>)
      else Inl TypeError)"

subsection \<open>The distribution of products over sums\<close>

text \<open>
  Modelled from the spec: \<open>TimesDistributor\<close> of \<open>rewritings\<close>, the normalizer that pushes
  multiplications to the leaves. It walks the term; the product of two distributed terms is
  distributed over the sums and differences of the left factor, then of the right one.
\<close>

fun dist_right :: "fnode \<Rightarrow> fnode \<Rightarrow> fnode" where
  "dist_right x (NPlus ys) = NPlus (map (dist_right x) ys)"
| "dist_right x (NMinus a b) = NMinus (dist_right x a) (dist_right x b)"
| "dist_right x y = NTimes [x, y]"

fun dist2 :: "fnode \<Rightarrow> fnode \<Rightarrow> fnode" where
  "dist2 (NPlus xs) y = NPlus (map (\<lambda>x. dist2 x y) xs)"
| "dist2 (NMinus a b) y = NMinus (dist2 a y) (dist2 b y)"
| "dist2 x y = dist_right x y"

fun td :: "fnode \<Rightarrow> fnode" where
  "td (NPlus as) = NPlus (map td as)"
| "td (NMinus a b) = NMinus (td a) (td b)"
| "td (NTimes as) = (case map td as of [] \<Rightarrow> NTimes [] | x # xs \<Rightarrow> foldl dist2 x xs)"
| "td (NDiv a b) = NDiv (td a) (td b)"
| "td f = f"

subsection \<open>The coefficient map\<close>

text \<open>
  \<open>symb2coef\<close> is a \<open>defaultdict(int)\<close>: \<open>d[k] += v\<close> reads \<open>0\<close> for a key that is not
  there and stores the sum.
\<close>

type_synonym coefs = "(fnode, rat) dict"

definition dict_pop :: "('k, 'v) dict \<Rightarrow> 'k \<Rightarrow> ('k, 'v) dict" where
  "dict_pop d k = filter (\<lambda>kv. fst kv \<noteq> k) d"

definition dict_add :: "coefs \<Rightarrow> fnode \<Rightarrow> rat \<Rightarrow> coefs" where
  "dict_add d k v = dict_set d k ((case dict_get d k of None \<Rightarrow> 0 | Some c \<Rightarrow> c) + v)"

text \<open>\<open>d[k] += v; if d[k] == 0: d.pop(k, None)\<close>\<close>

definition dict_add_prune :: "coefs \<Rightarrow> fnode \<Rightarrow> rat \<Rightarrow> coefs" where
  "dict_add_prune d k v =
     (let d' = dict_add d k v in if dict_get d' k = Some 0 then dict_pop d' k else d')"

record Expr =
  expr_type :: ty
  symb2coef :: coefs

definition is_zero :: "Expr \<Rightarrow> bool" where
  "is_zero e =
     (if length (symb2coef e) = 0 then True
      else list_all (\<lambda>kv. snd kv = 0) (symb2coef e))"

definition is_one :: "Expr \<Rightarrow> bool" where
  "is_one e =
     (if length (symb2coef e) = 0 then False
      else if length (symb2coef e) = 1
              \<and> dict_get (symb2coef e) (number_int (expr_type e) 1) \<noteq> None
              \<and> dict_get (symb2coef e) (number_int (expr_type e) 1) = Some 1
      then True
      else False)"

definition plus_const :: "rat \<Rightarrow> Expr \<Rightarrow> pyerror + Expr" where
  "plus_const num e =
     (if \<not> (expr_type e = T_REAL \<or> is_integer num) then Inl AssertionError
      else Inr (e\<lparr> symb2coef := dict_add (symb2coef e) (number_int (expr_type e) 1) num \<rparr>))"

text \<open>\<open>plus\<close> with one argument; \<open>plus(*exprs)\<close> folds it over its arguments.\<close>

definition plus1 :: "Expr \<Rightarrow> Expr \<Rightarrow> pyerror + Expr" where
  "plus1 e other =
     (if expr_type other \<noteq> expr_type e then Inl AssertionError
      else Inr (e\<lparr> symb2coef := foldl (\<lambda>d kv. dict_add d (fst kv) (snd kv))
                                   (symb2coef e) (symb2coef other) \<rparr>))"

fun plus :: "Expr \<Rightarrow> Expr list \<Rightarrow> pyerror + Expr" where
  "plus e [] = Inr e"
| "plus e (other # others) = sbind (plus1 e other) (\<lambda>e'. plus e' others)"

subsection \<open>plus_fnode\<close>

text \<open>
  The order in which the keys of a sum or of a product are written is given by
  \<open>fnode_key\<close> of \<open>expr_utils\<close>, which is not part of the sources at hand: the key
  function is a parameter \<open>fkey\<close>. \<open>sorted\<close> is stable, as \<open>sort_key\<close> is. The simplifier
  of the solver's library (\<open>self.env.simplifier.simplify\<close>) is not part of the sources
  either: it is the parameter \<open>simplify\<close>.
\<close>

text \<open>
  The loop over the factors of a product. \<open>factors\<close> grows while it is iterated: the
  arguments of a nested product are appended at its end. It returns the product of the
  constant factors and the list of the other factors. A factor without free variables is
  simplified and the payload of the result is multiplied in.
\<close>

function times_factors ::
  "(fnode \<Rightarrow> fnode) \<Rightarrow> fnode list \<Rightarrow> rat \<Rightarrow> fnode list \<Rightarrow> pyerror + (rat \<times> fnode list)" where
  "times_factors simplify [] const symbs = Inr (const, symbs)"
| "times_factors simplify (factor # factors) const symbs =
     (case factor of
        NPlus as \<Rightarrow> Inl AssertionError
      | NMinus a b \<Rightarrow> Inl AssertionError
      | NTimes as \<Rightarrow> times_factors simplify (factors @ as) const symbs
      | NSymbol n t x \<Rightarrow> times_factors simplify factors const (symbs @ [factor])
      | NToReal a \<Rightarrow>
          if \<not> is_symbol a then Inl AssertionError
          else times_factors simplify factors const (symbs @ [factor])
      | _ \<Rightarrow>
          if is_constant factor \<or> get_free_vars factor = {}
          then (case constant_value (simplify factor) of
                  Inl e \<Rightarrow> Inl e
                | Inr c \<Rightarrow> times_factors simplify factors (const * c) symbs)
          else times_factors simplify factors const (symbs @ [factor]))"
  by pat_completeness auto
termination
  by (relation "measure (\<lambda>(s, fs, c, sy). size_list size fs)") (auto simp: size_list_append)

text \<open>
  One turn of the loop of \<open>plus_fnode\<close> on the term popped from the stack: the terms it
  pushes (the first one is on top) and the new coefficient map. A term without free
  variables is simplified; the result must be a constant, and its payload is added to the
  coefficient of \<open>1\<close>.
\<close>

definition plus_fnode_step ::
  "(fnode \<Rightarrow> fnode) \<Rightarrow> (fnode \<Rightarrow> nat) \<Rightarrow> ty \<Rightarrow> bool \<Rightarrow> fnode \<Rightarrow> coefs
   \<Rightarrow> pyerror + (fnode list \<times> coefs)" where
  "plus_fnode_step simplify fkey t do_to_real cur d =
     (let one = number_int t 1; m_one = number_int t (- 1) in
      if is_constant cur \<or> get_free_vars cur = {} then
        if \<not> is_constant (simplify cur) then Inl AssertionError
        else sbind (constant_value (simplify cur)) (\<lambda>val.
               Inr ([], dict_add_prune d one val))
      else
        case cur of
          NSymbol n st x \<Rightarrow>
            Inr ([], dict_add d (if do_to_real \<and> st = T_INT then NToReal cur else cur) 1)
        | NToReal a \<Rightarrow>
            if \<not> is_symbol a then Inl AssertionError
            else if do_to_real then Inl AssertionError
            else Inr ([], dict_add d cur 1)
        | NPlus as \<Rightarrow> Inr (rev as, d)
        | NMinus a b \<Rightarrow> Inr ([td (NTimes [m_one, b]), a], d)
        | NTimes as \<Rightarrow>
            sbind (times_factors simplify as 1 []) (\<lambda>(const, symbs).
            sbind (if symbs \<noteq> [] then mgr_Times (sort_key fkey symbs) else Inr one) (\<lambda>k.
              Inr ([], dict_add_prune d (if k \<noteq> one \<and> do_to_real then NToReal k else k)
                         const)))
        | NDiv a b \<Rightarrow> Inr ([], dict_add d (if do_to_real then NToReal cur else cur) 1)
        | _ \<Rightarrow> Inl AssertionError)"

text \<open>
  The \<open>while stack\<close> loop. The result is \<open>None\<close> when the loop does not end.
\<close>

partial_function (option) plus_fnode_loop ::
  "(fnode \<Rightarrow> fnode) \<Rightarrow> (fnode \<Rightarrow> nat) \<Rightarrow> ty \<Rightarrow> bool \<Rightarrow> fnode list \<Rightarrow> coefs \<Rightarrow> (pyerror + coefs) option" where
  "plus_fnode_loop simplify fkey t do_to_real stack d =
     (case stack of
        [] \<Rightarrow> Some (Inr d)
      | cur # rest \<Rightarrow>
          (case plus_fnode_step simplify fkey t do_to_real cur d of
             Inl e \<Rightarrow> Some (Inl e)
           | Inr (pushed, d') \<Rightarrow> plus_fnode_loop simplify fkey t do_to_real (pushed @ rest) d'))"

declare plus_fnode_loop.simps [code]

definition plus_fnode ::
  "(fnode \<Rightarrow> fnode) \<Rightarrow> (fnode \<Rightarrow> nat) \<Rightarrow> fnode \<Rightarrow> Expr \<Rightarrow> (pyerror + Expr) option" where
  "plus_fnode simplify fkey formula e =
     (if \<not> (expr_type e = T_REAL \<or> expr_type e = get_type formula)
      then Some (Inl AssertionError)
      else
        map_option (map_sum id (\<lambda>d. e\<lparr> symb2coef := d \<rparr>))
          (plus_fnode_loop simplify fkey (expr_type e)
             (expr_type e = T_REAL \<and> get_type formula = T_INT)
             [td formula] (symb2coef e)))"

text \<open>
  \<open>Expr.__init__\<close> with a formula and nothing else, as \<open>eq2assign\<close> and \<open>times_fnode\<close>
  call it; and with a constant and nothing else. The self-check against the solver, made
  in debug mode only, is not part of the model.
\<close>

definition Expr_of_formula ::
  "(fnode \<Rightarrow> fnode) \<Rightarrow> (fnode \<Rightarrow> nat) \<Rightarrow> ty \<Rightarrow> fnode \<Rightarrow> (pyerror + Expr) option" where
  "Expr_of_formula simplify fkey t formula =
     (if \<not> (t = T_REAL \<or> t = T_INT) then Some (Inl AssertionError)
      else plus_fnode simplify fkey formula \<lparr> expr_type = t, symb2coef = [] \<rparr>)"

definition Expr_of_const :: "ty \<Rightarrow> rat \<Rightarrow> pyerror + Expr" where
  "Expr_of_const t const =
     (if \<not> (t = T_REAL \<or> t = T_INT) then Inl AssertionError
      else if const \<noteq> 0 then plus_const const \<lparr> expr_type = t, symb2coef = [] \<rparr>
      else Inr \<lparr> expr_type = t, symb2coef = [] \<rparr>)"

subsection \<open>pysmt_expr\<close>


text \<open>\<open>d[k]\<close> on the \<open>defaultdict\<close>, for reading.\<close>

definition coef_of :: "coefs \<Rightarrow> fnode \<Rightarrow> rat" where
  "coef_of d k = (case dict_get d k of None \<Rightarrow> 0 | Some c \<Rightarrow> c)"


subsection \<open>times\<close>

text \<open>
  \<open>get_real\<close>: the keys of an integer expression wrapped in a real cast, the entries with
  coefficient \<open>0\<close> dropped. The result is built by a dict comprehension.
\<close>

definition get_real :: "Expr \<Rightarrow> pyerror + Expr" where
  "get_real e =
     (if expr_type e \<noteq> T_INT then Inl AssertionError
      else Inr \<lparr> expr_type = T_REAL,
                 symb2coef =
                   foldl (\<lambda>d kv. dict_set d
                            (if fst kv \<noteq> number_int T_INT 1 then NToReal (fst kv) else NReal 1)
                            (snd kv))
                     [] (filter (\<lambda>kv. snd kv \<noteq> 0) (symb2coef e)) \<rparr>)"

text \<open>The key of the product of two monomials.\<close>

definition times_key :: "(fnode \<Rightarrow> nat) \<Rightarrow> fnode \<Rightarrow> fnode \<Rightarrow> pyerror + fnode" where
  "times_key fkey k0 k1 =
     (let symbs0 = (case k0 of NTimes as \<Rightarrow> as | _ \<Rightarrow> [k0]);
          symbs = (case k1 of
                     NTimes bs \<Rightarrow> symbs0 @ bs
                   | _ \<Rightarrow> if \<not> is_one_fnode k1 then symbs0 @ [k1] else symbs0)
      in mgr_Times (sort_key fkey symbs))"

text \<open>The two nested loops of \<open>times\<close>, filling a new coefficient map.\<close>

definition times_cross :: "(fnode \<Rightarrow> nat) \<Rightarrow> coefs \<Rightarrow> coefs \<Rightarrow> pyerror + coefs" where
  "times_cross fkey d0 d1 =
     foldl (\<lambda>acc kv0.
        foldl (\<lambda>acc' kv1.
           sbind acc' (\<lambda>d.
           sbind (times_key fkey (fst kv0) (fst kv1)) (\<lambda>k.
             Inr (dict_add d k (snd kv0 * snd kv1)))))
          acc d1)
       (Inr []) d0"

fun times_loop :: "(fnode \<Rightarrow> nat) \<Rightarrow> Expr \<Rightarrow> Expr list \<Rightarrow> pyerror + Expr" where
  "times_loop fkey e [] = Inr e"
| "times_loop fkey e (other # others) =
     (if \<not> (expr_type e = T_REAL \<or> expr_type other = expr_type e) then Inl AssertionError
      else if is_zero other then Inr (e\<lparr> symb2coef := [] \<rparr>)
      else if \<not> is_one other then
        sbind (if expr_type other = T_INT \<and> expr_type e = T_REAL
               then get_real other else Inr other) (\<lambda>other'.
        sbind (times_cross fkey (symb2coef e) (symb2coef other')) (\<lambda>d.
          times_loop fkey (e\<lparr> symb2coef := d \<rparr>) others))
      else times_loop fkey e others)"

definition times :: "(fnode \<Rightarrow> nat) \<Rightarrow> Expr \<Rightarrow> Expr list \<Rightarrow> pyerror + Expr" where
  "times fkey e others = (if is_zero e then Inr e else times_loop fkey e others)"

subsection \<open>eq2assign\<close>







subsection \<open>Ineq\<close>

text \<open>
  The left-hand side of an \<open>Ineq\<close>: a \<open>defaultdict\<close> from monomials to expressions over
  the parameters, in the order of insertion. Reading a missing key gives a fresh empty
  expression of the type of the (in)equality.
\<close>

type_synonym lhs_t = "(fnode, Expr) dict"

definition lhs_get :: "ty \<Rightarrow> lhs_t \<Rightarrow> fnode \<Rightarrow> Expr" where
  "lhs_get t lhs k =
     (case dict_get lhs k of
        None \<Rightarrow> \<lparr> expr_type = t, symb2coef = [] \<rparr>
      | Some e \<Rightarrow> e)"

text \<open>Sequencing of calls that may raise and may not return.\<close>

fun rbind :: "(pyerror + 'a) option \<Rightarrow> ('a \<Rightarrow> (pyerror + 'b) option) \<Rightarrow> (pyerror + 'b) option" where
  "rbind None f = None"
| "rbind (Some (Inl e)) f = Some (Inl e)"
| "rbind (Some (Inr a)) f = f a"

text \<open>
  \<open>times_fnode\<close>: the expression is multiplied by the expression built from the formula,
  unless the formula is the constant \<open>1\<close>.
\<close>

definition times_fnode ::
  "(fnode \<Rightarrow> fnode) \<Rightarrow> (fnode \<Rightarrow> nat) \<Rightarrow> fnode \<Rightarrow> Expr \<Rightarrow> (pyerror + Expr) option" where
  "times_fnode simplify fkey formula e =
     (if get_type formula \<noteq> expr_type e then Some (Inl AssertionError)
      else if \<not> is_one_fnode formula then
        rbind (Expr_of_formula simplify fkey (expr_type e) formula) (\<lambda>ex. Some (times fkey e [ex]))
      else Some (Inr e))"

text \<open>
  The loop of \<open>_parse\<close> over the factors of a product. \<open>args\<close> grows while it is iterated:
  the arguments of a nested product are appended at its end. It returns the product of
  the constant factors, the factors that are not parameters and the factors that are.
\<close>

function parse_factors ::
  "fnode set \<Rightarrow> fnode list \<Rightarrow> rat \<Rightarrow> fnode list \<Rightarrow> fnode list
   \<Rightarrow> pyerror + (rat \<times> fnode list \<times> fnode list)" where
  "parse_factors params [] const symbs ps = Inr (const, symbs, ps)"
| "parse_factors params (arg # args) const symbs ps =
     (case arg of
        NPlus as \<Rightarrow> Inl AssertionError
      | NTimes as \<Rightarrow> parse_factors params (args @ as) const symbs ps
      | NSymbol n t x \<Rightarrow>
          if arg \<in> params then parse_factors params args const symbs (ps @ [arg])
          else parse_factors params args const (symbs @ [arg]) ps
      | NDiv a b \<Rightarrow> parse_factors params args const (symbs @ [arg]) ps
      | NToReal a \<Rightarrow>
          if \<not> is_symbol a then Inl AssertionError
          else if a \<in> params then parse_factors params args const symbs (ps @ [arg])
          else parse_factors params args const (symbs @ [arg]) ps
      | _ \<Rightarrow>
          if is_constant arg
          then (case constant_value arg of
                  Inl e \<Rightarrow> Inl e
                | Inr c \<Rightarrow> parse_factors params args (const * c) symbs ps)
          else Inl AssertionError)"
  by pat_completeness auto
termination
  by (relation "measure (\<lambda>(p, fs, c, s, q). size_list size fs)") (auto simp: size_list_append)

text \<open>
  One turn of the \<open>while stack\<close> loop of \<open>_parse\<close> on the term popped from the stack: the
  terms it pushes (the first one is on top), the new left-hand side and the new
  right-hand side. A term whose free variables are all parameters is added to the
  right-hand side; any other monomial is a key of the left-hand side, and its
  coefficient, a product of a number and of parameters, is added to the expression kept
  under that key.
\<close>

definition parse_step ::
  "(fnode \<Rightarrow> fnode) \<Rightarrow> (fnode \<Rightarrow> nat) \<Rightarrow> ty \<Rightarrow> fnode set \<Rightarrow> fnode \<Rightarrow> lhs_t \<Rightarrow> Expr
   \<Rightarrow> (pyerror + (fnode list \<times> lhs_t \<times> Expr)) option" where
  "parse_step simplify fkey t params cur lhs rhs =
     (let m_one = number_int t (- 1) in
      if get_free_vars cur \<subseteq> params then
        rbind (plus_fnode simplify fkey cur rhs) (\<lambda>rhs'. Some (Inr ([], lhs, rhs')))
      else
        case cur of
          NSymbol n st x \<Rightarrow>
            rbind (Some (plus_const 1 (lhs_get t lhs cur))) (\<lambda>e.
              Some (Inr ([], dict_set lhs cur e, rhs)))
        | NPlus as \<Rightarrow> Some (Inr (rev as, lhs, rhs))
        | NMinus a b \<Rightarrow> Some (Inr ([td (NTimes [m_one, b]), a], lhs, rhs))
        | NTimes as \<Rightarrow>
            rbind (Some (parse_factors params as 1 [] [])) (\<lambda>(const, symbs, ps).
            rbind (Some (mgr_Times (sort_key fkey symbs))) (\<lambda>k.
            rbind (Some (number t const)) (\<lambda>n.
            rbind (Some (mgr_Times (n # ps))) (\<lambda>coeff.
            rbind (plus_fnode simplify fkey coeff (lhs_get t lhs k)) (\<lambda>e.
              Some (Inr ([], dict_set lhs k e, rhs)))))))
        | NDiv a b \<Rightarrow>
            rbind (Some (plus_const 1 (lhs_get t lhs cur))) (\<lambda>e.
              Some (Inr ([], dict_set lhs cur e, rhs)))
        | NToReal a \<Rightarrow>
            if \<not> is_symbol a then Some (Inl AssertionError)
            else if a \<in> params then
              rbind (plus_fnode simplify fkey cur rhs) (\<lambda>rhs'. Some (Inr ([], lhs, rhs')))
            else
              rbind (Some (plus_const 1 (lhs_get t lhs cur))) (\<lambda>e.
                Some (Inr ([], dict_set lhs cur e, rhs)))
        | _ \<Rightarrow> Some (Inl AssertionError))"

text \<open>The \<open>while stack\<close> loop. The result is \<open>None\<close> when the loop does not end.\<close>

partial_function (option) parse_loop ::
  "(fnode \<Rightarrow> fnode) \<Rightarrow> (fnode \<Rightarrow> nat) \<Rightarrow> ty \<Rightarrow> fnode set \<Rightarrow> fnode list \<Rightarrow> lhs_t \<Rightarrow> Expr
   \<Rightarrow> (pyerror + (lhs_t \<times> Expr)) option" where
  "parse_loop simplify fkey t params stack lhs rhs =
     (case stack of
        [] \<Rightarrow> Some (Inr (lhs, rhs))
      | cur # rest \<Rightarrow>
          (case parse_step simplify fkey t params cur lhs rhs of
             None \<Rightarrow> None
           | Some (Inl e) \<Rightarrow> Some (Inl e)
           | Some (Inr (pushed, lhs', rhs')) \<Rightarrow>
               parse_loop simplify fkey t params (pushed @ rest) lhs' rhs'))"

declare parse_loop.simps [code]

text \<open>
  The coefficients of the left-hand side, in the order the two nested loops of the count
  visit them; the number of those that are not zero, and the number of those that are
  negative.
\<close>

definition lhs_coefs :: "lhs_t \<Rightarrow> rat list" where
  "lhs_coefs lhs = concat (map (\<lambda>kv. map snd (symb2coef (snd kv))) lhs)"

definition tot_coefs :: "lhs_t \<Rightarrow> nat" where
  "tot_coefs lhs = length (filter (\<lambda>val. val \<noteq> 0) (lhs_coefs lhs))"

definition neg_coefs :: "lhs_t \<Rightarrow> nat" where
  "neg_coefs lhs = length (filter (\<lambda>val. val \<noteq> 0 \<and> val < 0) (lhs_coefs lhs))"

text \<open>\<open>for expr in lhs.values(): expr.times_fnode(expr.number(-1))\<close>\<close>

fun flip_lhs :: "(fnode \<Rightarrow> fnode) \<Rightarrow> (fnode \<Rightarrow> nat) \<Rightarrow> lhs_t \<Rightarrow> (pyerror + lhs_t) option" where
  "flip_lhs simplify fkey [] = Some (Inr [])"
| "flip_lhs simplify fkey (kv # rest) =
     rbind (times_fnode simplify fkey (number_int (expr_type (snd kv)) (- 1)) (snd kv)) (\<lambda>e.
     rbind (flip_lhs simplify fkey rest) (\<lambda>rest'. Some (Inr ((fst kv, e) # rest'))))"

text \<open>
  \<open>Ineq.__init__\<close> as far as \<open>_parse\<close>: the pair \<open>(lhs, rhs)\<close> it stores. The sides of the
  (in)equality are moved to the left as \<open>arg0 - arg1\<close>, the loop splits the difference
  into the left-hand side and the terms over the parameters; the latter are negated to
  give the right-hand side, unless the (in)equality is an equality with more than half of
  its nonzero coefficients negative: then the left-hand side is negated instead.
\<close>

definition Ineq_parse ::
  "(fnode \<Rightarrow> fnode) \<Rightarrow> (fnode \<Rightarrow> nat) \<Rightarrow> fnode set \<Rightarrow> fnode \<Rightarrow> (pyerror + (lhs_t \<times> Expr)) option" where
  "Ineq_parse simplify fkey params ineq =
     (case (case ineq of
              NEquals a b \<Rightarrow> Some (a, b, True)
            | NLE a b \<Rightarrow> Some (a, b, False)
            | NLT a b \<Rightarrow> Some (a, b, False)
            | _ \<Rightarrow> None) of
        None \<Rightarrow> Some (Inl AssertionError)
      | Some (arg0, arg1, is_equals) \<Rightarrow>
          (let ineq_type = get_type arg0 in
           if \<not> (ineq_type = T_REAL \<or> ineq_type = T_INT) then Some (Inl AssertionError)
           else
             let m_one = number_int ineq_type (- 1) in
             rbind (Some (Expr_of_const ineq_type (- 1))) (\<lambda>m_one_expr.
             rbind (parse_loop simplify fkey ineq_type params
                      [td (NTimes [m_one, arg1]), td arg0] []
                      \<lparr> expr_type = ineq_type, symb2coef = [] \<rparr>) (\<lambda>(lhs, rhs).
               if is_equals \<and> of_nat (neg_coefs lhs) > (of_nat (tot_coefs lhs) :: rat) / 2
               then rbind (flip_lhs simplify fkey lhs) (\<lambda>lhs'. Some (Inr (lhs', rhs)))
               else rbind (Some (times fkey rhs [m_one_expr])) (\<lambda>rhs'.
                      Some (Inr (lhs, rhs')))))))"

subsection \<open>Arithmetic terms and the value of a coefficient map\<close>

text \<open>
  The arithmetic terms of type \<open>t\<close>: built from symbols of type \<open>t\<close>, constants of type
  \<open>t\<close>, sums, differences, products and quotients.
\<close>

fun arith :: "ty \<Rightarrow> fnode \<Rightarrow> bool" where
  "arith t (NSymbol n st x) = (st = t)"
| "arith t (NInt i) = (t = T_INT)"
| "arith t (NReal q) = (t = T_REAL)"
| "arith t (NPlus as) = (as \<noteq> [] \<and> list_all (arith t) as)"
| "arith t (NMinus a b) = (arith t a \<and> arith t b)"
| "arith t (NTimes as) = (as \<noteq> [] \<and> list_all (arith t) as)"
| "arith t (NDiv a b) = (arith t a \<and> arith t b)"
| "arith t _ = False"

text \<open>The value of a coefficient map: the sum of coefficient times monomial.\<close>

definition coefs_value :: "valuation \<Rightarrow> coefs \<Rightarrow> rat" where
  "coefs_value v d = sum_list (map (\<lambda>kv. snd kv * eval v (fst kv)) d)"

text \<open>
  What is asked of the simplifier, on an arithmetic term without free variables that it
  turns into a constant: the constant has the type of the term (\<open>simp_typed\<close>), and it
  has the value of the term under the valuation at hand (\<open>simp_sound\<close>). Nothing is asked
  where the simplifier does not return a constant: there the code raises.
\<close>

definition simp_typed :: "(fnode \<Rightarrow> fnode) \<Rightarrow> bool" where
  "simp_typed simplify =
     (\<forall>t f. arith t f \<and> get_free_vars f = {} \<and> is_constant (simplify f)
            \<longrightarrow> get_type (simplify f) = t)"

definition simp_sound :: "(fnode \<Rightarrow> fnode) \<Rightarrow> valuation \<Rightarrow> bool" where
  "simp_sound simplify v =
     (\<forall>t f. arith t f \<and> get_free_vars f = {} \<and> is_constant (simplify f)
            \<longrightarrow> eval v (simplify f) = eval v f)"

text \<open>
  A simplifier for the concrete inputs below: it folds the sums, differences and products
  of integer constants and those of real constants, and leaves every other term, a
  quotient among them, as it is.
\<close>

fun ring_const :: "ty \<Rightarrow> fnode \<Rightarrow> bool" where
  "ring_const t (NInt i) = (t = T_INT)"
| "ring_const t (NReal q) = (t = T_REAL)"
| "ring_const t (NPlus as) = (as \<noteq> [] \<and> list_all (ring_const t) as)"
| "ring_const t (NMinus a b) = (ring_const t a \<and> ring_const t b)"
| "ring_const t (NTimes as) = (as \<noteq> [] \<and> list_all (ring_const t) as)"
| "ring_const t _ = False"

fun ring_value :: "fnode \<Rightarrow> rat" where
  "ring_value (NInt i) = of_int i"
| "ring_value (NReal q) = q"
| "ring_value (NPlus as) = sum_list (map ring_value as)"
| "ring_value (NMinus a b) = ring_value a - ring_value b"
| "ring_value (NTimes as) = prod_list (map ring_value as)"
| "ring_value _ = 0"

definition simplify_const :: "fnode \<Rightarrow> fnode" where
  "simplify_const f =
     (if ring_const T_INT f then NInt \<lfloor>ring_value f\<rfloor>
      else if ring_const T_REAL f then NReal (ring_value f)
      else f)"

text \<open>
  Shapes used in the proofs. A product is a term whose factors, through nested products,
  are neither sums nor differences; a sum of products is built from products by sums and
  differences; its weight counts the nodes of these sums and differences and the products
  below them.
\<close>

fun prod_ok :: "fnode \<Rightarrow> bool" where
  "prod_ok (NPlus as) = False"
| "prod_ok (NMinus a b) = False"
| "prod_ok (NTimes as) = list_all prod_ok as"
| "prod_ok _ = True"

fun sop :: "fnode \<Rightarrow> bool" where
  "sop (NPlus as) = list_all sop as"
| "sop (NMinus a b) = (sop a \<and> sop b)"
| "sop f = prod_ok f"

fun weight :: "fnode \<Rightarrow> nat" where
  "weight (NPlus as) = Suc (sum_list (map weight as))"
| "weight (NMinus a b) = Suc (weight a + weight b)"
| "weight f = 1"

text \<open>The factors of the monomials: symbols and quotients.\<close>

fun monomial_factor :: "fnode \<Rightarrow> bool" where
  "monomial_factor (NSymbol n st x) = True"
| "monomial_factor (NDiv a b) = True"
| "monomial_factor _ = False"

text \<open>
  The coefficient maps \<open>plus_fnode\<close> builds on arithmetic terms of type \<open>t\<close>: the keys are
  distinct, each key is the constant \<open>1\<close>, a symbol, a quotient or a product of two or
  more symbols and quotients in the order of \<open>fkey\<close>, and the coefficients of an integer
  expression are integers.
\<close>

fun key_ok :: "(fnode \<Rightarrow> nat) \<Rightarrow> ty \<Rightarrow> fnode \<Rightarrow> bool" where
  "key_ok fkey t (NSymbol n st x) = True"
| "key_ok fkey t (NDiv a b) = True"
| "key_ok fkey t (NTimes as) =
     (2 \<le> length as \<and> sorted (map fkey as) \<and> list_all monomial_factor as)"
| "key_ok fkey t f = (f = number_int t 1)"

definition coefs_ok :: "(fnode \<Rightarrow> nat) \<Rightarrow> ty \<Rightarrow> coefs \<Rightarrow> bool" where
  "coefs_ok fkey t d =
     (distinct (map fst d) \<and> list_all (\<lambda>kv. key_ok fkey t (fst kv)) d
      \<and> (t = T_REAL \<or> list_all (\<lambda>kv. snd kv \<in> \<int>) d))"


text \<open>
  The value of the left-hand side of an \<open>Ineq\<close>: the sum, over its keys, of the value of
  the coefficient expression times the value of the key. The left-hand sides \<open>_parse\<close>
  builds have distinct keys, and each coefficient expression has the type of the
  (in)equality and a coefficient map as above.
\<close>

definition lhs_value :: "valuation \<Rightarrow> lhs_t \<Rightarrow> rat" where
  "lhs_value v lhs =
     coefs_value v (map (\<lambda>kv. (fst kv, coefs_value v (symb2coef (snd kv)))) lhs)"

definition expr_ok :: "(fnode \<Rightarrow> nat) \<Rightarrow> ty \<Rightarrow> Expr \<Rightarrow> bool" where
  "expr_ok fkey t e = (expr_type e = t \<and> coefs_ok fkey t (symb2coef e))"

definition lhs_ok :: "(fnode \<Rightarrow> nat) \<Rightarrow> ty \<Rightarrow> lhs_t \<Rightarrow> bool" where
  "lhs_ok fkey t lhs =
     (distinct (map fst lhs) \<and> list_all (\<lambda>kv. expr_ok fkey t (snd kv)) lhs)"

text \<open>
  The negation of an expression, as \<open>times_fnode(number(-1))\<close> and \<open>times\<close> by the
  expression \<open>-1\<close> compute it: an expression whose coefficients are all zero is left as
  it is.
\<close>

definition neg_coefs_map :: "coefs \<Rightarrow> coefs" where
  "neg_coefs_map d = map (\<lambda>kv. (fst kv, snd kv * (- 1))) d"

definition neg_expr :: "Expr \<Rightarrow> Expr" where
  "neg_expr e = (if is_zero e then e else e\<lparr> symb2coef := neg_coefs_map (symb2coef e) \<rparr>)"

text \<open>
  The un-flipped form of an equality \<open>a = b\<close>: the pair \<open>_parse\<close> returns when the rule on
  the signs is left out, that is the left-hand side as the loop leaves it and the terms
  over the parameters negated.
\<close>

definition parse_unflipped ::
  "(fnode \<Rightarrow> fnode) \<Rightarrow> (fnode \<Rightarrow> nat) \<Rightarrow> fnode set \<Rightarrow> fnode \<Rightarrow> fnode \<Rightarrow> (pyerror + (lhs_t \<times> Expr)) option" where
  "parse_unflipped simplify fkey params a b =
     (let t = get_type a in
      rbind (parse_loop simplify fkey t params [td (NTimes [number_int t (- 1), b]), td a] []
               \<lparr> expr_type = t, symb2coef = [] \<rparr>) (\<lambda>(lhs, rhs).
      rbind (Some (times fkey rhs [\<lparr> expr_type = t, symb2coef = [(number_int t 1, - 1)] \<rparr>]))
        (\<lambda>rhs'. Some (Inr (lhs, rhs')))))"

section \<open>Properties of Location\<close>

lemma gen_seq_simps [simp]:
  "gen_seq (xs, None) h = (xs @ fst h, snd h)"
  "gen_seq (xs, Some e) h = (xs, Some e)"
  by (simp_all add: gen_seq_def)

lemma gen_of_simps [simp]:
  "gen_of (Inr ys) = (ys, None)"
  "gen_of (Inl e) = ([], Some e)"
  by (simp_all add: gen_of_def)

lemma smap_total:
  "list_all (\<lambda>x. \<exists>y. f x = Inr y) xs \<Longrightarrow> \<exists>ys. smap f xs = Inr ys"
  by (induction xs) auto

lemma dict_pop_fnode_id: "dict_pop_fnode d t = d"
  by (simp add: dict_pop_fnode_def int_eq_fnode_def)

subsection \<open>set_progress with a FALSE transition\<close>

text \<open>
  Claim C2. \<open>set_progress(dst, t)\<close> with a FALSE-valued \<open>t\<close> is meant to remove the
  progress edge stored for \<open>dst\<close>. The code pops the key \<open>t\<close> instead of the key \<open>dst\<close>:
  on the location whose only progress edge is \<open>0 \<mapsto> p\<close>, after \<open>set_progress(0, FALSE)\<close>
  the call \<open>progress(0)\<close> still returns \<open>p\<close>.
\<close>

theorem set_progress_false_keeps_edge:
  "sbind (set_progress 0 FALSE
            (Location_init TRUE None None None None (Some [(0, NSymbol ''p'' T_BOOL False)])))
         (\<lambda>l'. Inr (progress l' 0))
   = Inr (Some (NSymbol ''p'' T_BOOL False))"
  by (simp add: set_progress_def FALSE_def TRUE_def Location_init_def progress_def
      dict_pop_fnode_id)

subsection \<open>set_rank\<close>

lemma set_rank_fields [simp]:
  "region (set_rank trans0 r l) = region l"
  "assume_t (set_rank trans0 r l) = assume_t l"
  "stutterT (set_rank trans0 r l) = stutterT l"
  "rankT (set_rank trans0 r l) = rankT l"
  "rf (set_rank trans0 r l) = rf l"
  "progressT (set_rank trans0 r l) = progressT l"
  by (simp_all add: set_rank_def)

lemma get_trans_set_rank:
  "get_trans (set_rank trans0 r l) idx lvals x_lvals symbs ls
     is_stutter is_ranked is_progress rank_decr
   = get_trans l idx lvals x_lvals symbs ls is_stutter is_ranked is_progress rank_decr"
  unfolding get_trans_def get_trans_pre_def cfg_clause_def cfg_t_type_def
      stutter_clause_def ranked_clause_def rank_decr_clauses_def progress_def set_rank_fields
  by (rule refl)

text \<open>
  Claim C10. On a location constructed without a ranking function (neither \<open>rankT\<close> nor
  \<open>rf\<close> given), \<open>set_rank(trans, rf)\<close> changes nothing that is observed: afterwards
  \<open>rankT\<close> is FALSE, \<open>rf\<close> is \<open>None\<close>, \<open>ranked_region\<close> is FALSE, the ranked-transition
  step of \<open>get_trans\<close> yields no clause, and \<open>get_trans\<close> yields what it yielded before.
\<close>

theorem set_rank_no_effect:
  "rankT (set_rank trans0 r (Location_init region0 assume0 stutterT0 None None progressT0)) = FALSE
   \<and> rf (set_rank trans0 r (Location_init region0 assume0 stutterT0 None None progressT0)) = None
   \<and> ranked_region (set_rank trans0 r (Location_init region0 assume0 stutterT0 None None progressT0))
       = FALSE
   \<and> ranked_clause (set_rank trans0 r (Location_init region0 assume0 stutterT0 None None progressT0))
        idx lvals x_lvals is_ranked = Inr []
   \<and> get_trans (set_rank trans0 r (Location_init region0 assume0 stutterT0 None None progressT0))
        idx lvals x_lvals symbs ls is_stutter is_ranked is_progress rank_decr
       = get_trans (Location_init region0 assume0 stutterT0 None None progressT0)
           idx lvals x_lvals symbs ls is_stutter is_ranked is_progress rank_decr"
  by (simp add: get_trans_set_rank)
     (simp add: set_rank_def Location_init_def ranked_region_def ranked_clause_def FALSE_def)

theorem set_rank_no_effect_witness:
  "rankT (set_rank (NSymbol ''d'' T_BOOL False)
            \<lparr> rf_is_ranked = NSymbol ''ranked'' T_BOOL False, rf_is_min = NSymbol ''min'' T_BOOL False,
              rf_is_const = NSymbol ''const'' T_BOOL False, rf_is_decr = NSymbol ''decr'' T_BOOL False \<rparr>
            (Location_init TRUE None (Some (NSymbol ''s'' T_BOOL False)) None None None)) = FALSE
   \<and> fst (get_trans (set_rank (NSymbol ''d'' T_BOOL False)
            \<lparr> rf_is_ranked = NSymbol ''ranked'' T_BOOL False, rf_is_min = NSymbol ''min'' T_BOOL False,
              rf_is_const = NSymbol ''const'' T_BOOL False, rf_is_decr = NSymbol ''decr'' T_BOOL False \<rparr>
            (Location_init TRUE None (Some (NSymbol ''s'' T_BOOL False)) None None None)) 0
          [NSymbol ''l0'' T_BOOL False, NSymbol ''l1'' T_BOOL False]
          [NSymbol ''l0'' T_BOOL True, NSymbol ''l1'' T_BOOL True]
          {} [] (NSymbol ''st'' T_BOOL False) FALSE (NSymbol ''pr'' T_BOOL False) FALSE)
     = [NImplies (NSymbol ''l0'' T_BOOL False)
          (NAnd [NSymbol ''l0'' T_BOOL True, NSymbol ''st'' T_BOOL False]),
        NImplies (NAnd [NSymbol ''l0'' T_BOOL False, NSymbol ''l0'' T_BOOL True,
                        NSymbol ''st'' T_BOOL False])
          (NSymbol ''s'' T_BOOL False)]"
  using set_rank_no_effect [of "NSymbol ''d'' T_BOOL False"
      "\<lparr> rf_is_ranked = NSymbol ''ranked'' T_BOOL False, rf_is_min = NSymbol ''min'' T_BOOL False,
         rf_is_const = NSymbol ''const'' T_BOOL False, rf_is_decr = NSymbol ''decr'' T_BOOL False \<rparr>"
      TRUE None "Some (NSymbol ''s'' T_BOOL False)" None
      0 "[NSymbol ''l0'' T_BOOL False, NSymbol ''l1'' T_BOOL False]"
      "[NSymbol ''l0'' T_BOOL True, NSymbol ''l1'' T_BOOL True]" FALSE
      "{}" "[]" "NSymbol ''st'' T_BOOL False" "NSymbol ''pr'' T_BOOL False" FALSE]
  by (simp add: get_trans_def get_trans_pre_def Location_init_def TRUE_def FALSE_def
      cfg_clause_def cfg_t_type_def progress_def py_index_def stutter_clause_def
      ranked_clause_def rank_decr_clauses_def)

subsection \<open>get_trans on a location without outgoing behaviour\<close>

text \<open>
  Claim C4, as stated: a location whose \<open>stutterT\<close> is FALSE and whose \<open>progressT\<close> is
  empty makes \<open>get_trans\<close> fail before any clause is emitted. It does not: on such a
  location \<open>get_trans\<close> ends without an exception and has emitted one clause.
\<close>

theorem get_trans_dead_end_counterexample:
  "get_trans (Location_init TRUE None None None None None) 0
     [NSymbol ''l0'' T_BOOL False, NSymbol ''l1'' T_BOOL False]
     [NSymbol ''l0'' T_BOOL True, NSymbol ''l1'' T_BOOL True]
     {} [] (NSymbol ''st'' T_BOOL False) FALSE (NSymbol ''pr'' T_BOOL False) FALSE
   = ([NImplies (NSymbol ''l0'' T_BOOL False) (NAnd [NSymbol ''l0'' T_BOOL True, NBool False])],
      None)"
  by (simp add: get_trans_def get_trans_pre_def Location_init_def TRUE_def FALSE_def
      cfg_clause_def cfg_t_type_def progress_def py_index_def stutter_clause_def
      ranked_clause_def rank_decr_clauses_def)

text \<open>
  Claim C4, amended. \<open>get_trans\<close> makes no check that the location has a stutter
  transition or a progress edge. On a location whose \<open>stutterT\<close> and \<open>rankT\<close> are FALSE
  and whose \<open>progressT\<close> is empty, called with arguments that pass its assertions and an
  index within \<open>lvals\<close> and \<open>x_lvals\<close>, it emits the clause
  \<open>lvals[idx] \<rightarrow> (x_lvals[idx] \<and> FALSE)\<close> and after it only the clauses of the
  rank-decrease flag.
\<close>

theorem get_trans_dead_end:
  assumes "is_false (stutterT l)" and "progressT l = []" and "is_false (rankT l)"
    and "get_trans_pre l symbs is_stutter is_ranked is_progress rank_decr"
    and "py_index lvals idx = Inr l_idx" and "py_index x_lvals idx = Inr x_idx"
  shows "get_trans l idx lvals x_lvals symbs ls is_stutter is_ranked is_progress rank_decr
         = gen_seq ([NImplies l_idx (NAnd [x_idx, NBool False])], None)
             (rank_decr_clauses l idx lvals is_ranked rank_decr)"
  using assms
  by (simp add: get_trans_def cfg_clause_def cfg_t_type_def progress_def stutter_clause_def
      ranked_clause_def)

theorem get_trans_dead_end_witness:
  "get_trans (Location_init TRUE None None None None None) 0
     [NSymbol ''l0'' T_BOOL False, NSymbol ''l1'' T_BOOL False]
     [NSymbol ''l0'' T_BOOL True, NSymbol ''l1'' T_BOOL True]
     {} [] (NSymbol ''st'' T_BOOL False) FALSE (NSymbol ''pr'' T_BOOL False) FALSE
   = gen_seq
       ([NImplies (NSymbol ''l0'' T_BOOL False) (NAnd [NSymbol ''l0'' T_BOOL True, NBool False])],
        None)
       (rank_decr_clauses (Location_init TRUE None None None None None) 0
          [NSymbol ''l0'' T_BOOL False, NSymbol ''l1'' T_BOOL False] FALSE FALSE)"
  by (rule get_trans_dead_end)
     (simp_all add: Location_init_def TRUE_def FALSE_def get_trans_pre_def py_index_def)

subsection \<open>The self-transition disjunct of get_trans\<close>

text \<open>
  Claim C3, as stated: the RANKED case of the self-transition disjunct is conjoined with
  the rank-at-minimum condition and is there only when the location's progress set
  contains \<open>idx\<close>. On the location below, which has a ranking function and no progress
  edge, the disjunct holds the RANKED case, conjoined with \<open>rf.is_ranked()\<close>.
\<close>

theorem get_trans_ranked_case_counterexample:
  "progress (Location_init TRUE None (Some (NSymbol ''s'' T_BOOL False))
       (Some (NSymbol ''d'' T_BOOL False))
       (Some \<lparr> rf_is_ranked = NSymbol ''ranked'' T_BOOL False,
               rf_is_min = NSymbol ''min'' T_BOOL False,
               rf_is_const = NSymbol ''const'' T_BOOL False,
               rf_is_decr = NSymbol ''decr'' T_BOOL False \<rparr>) None) 0 = None
   \<and> hd (fst (get_trans
       (Location_init TRUE None (Some (NSymbol ''s'' T_BOOL False))
          (Some (NSymbol ''d'' T_BOOL False))
          (Some \<lparr> rf_is_ranked = NSymbol ''ranked'' T_BOOL False,
                  rf_is_min = NSymbol ''min'' T_BOOL False,
                  rf_is_const = NSymbol ''const'' T_BOOL False,
                  rf_is_decr = NSymbol ''decr'' T_BOOL False \<rparr>) None) 0
       [NSymbol ''l0'' T_BOOL False, NSymbol ''l1'' T_BOOL False]
       [NSymbol ''l0'' T_BOOL True, NSymbol ''l1'' T_BOOL True]
       {} [] (NSymbol ''st'' T_BOOL False) (NSymbol ''rk'' T_BOOL False)
       (NSymbol ''pr'' T_BOOL False) (NSymbol ''dec'' T_BOOL False)))
     = NImplies (NSymbol ''l0'' T_BOOL False)
         (NAnd [NSymbol ''l0'' T_BOOL True,
                NOr [NSymbol ''st'' T_BOOL False,
                     NAnd [NSymbol ''rk'' T_BOOL False, NSymbol ''ranked'' T_BOOL False]]])"
  by (simp add: get_trans_def get_trans_pre_def Location_init_def TRUE_def FALSE_def
      cfg_clause_def cfg_t_type_def progress_def py_index_def stutter_clause_def
      ranked_clause_def rank_decr_clauses_def)

text \<open>
  Claim C3, amended. For every location with a ranking function and a ranked transition
  (\<open>rankT\<close> not FALSE), called with arguments that pass the assertions of \<open>get_trans\<close> and
  indices within \<open>lvals\<close> and \<open>x_lvals\<close>, the first clause emitted is
  \<open>lvals[idx] \<rightarrow> \<Or>(x_lvals[idx] \<and> \<Or>t_type, ...)\<close> where \<open>t_type\<close> holds, in this
  order: the STUTTER case when \<open>stutterT\<close> is not FALSE; the RANKED case conjoined with
  \<open>rf.is_ranked()\<close>, whether or not the progress set contains \<open>idx\<close>; and the PROGRESS
  case conjoined with the rank-at-minimum condition \<open>rf.is_min()\<close>, exactly when the
  progress set contains \<open>idx\<close>.
\<close>

theorem get_trans_ranked_case:
  assumes "rf l = Some r" and "\<not> is_false (rankT l)"
    and "get_trans_pre l symbs is_stutter is_ranked is_progress rank_decr"
    and "py_index lvals idx = Inr l_idx" and "py_index x_lvals idx = Inr x_idx"
    and "list_all (\<lambda>dst. \<exists>x_dst. py_index x_lvals dst = Inr x_dst) (dsts l)"
  shows "\<exists>others rest.
           fst (get_trans l idx lvals x_lvals symbs ls
                  is_stutter is_ranked is_progress rank_decr)
           = NImplies l_idx
               (mgr_Or (mgr_And [x_idx,
                  mgr_Or ((if \<not> is_false (stutterT l) then [is_stutter] else [])
                          @ [mgr_And [is_ranked, rf_is_ranked r]]
                          @ (if progress l idx \<noteq> None
                             then [mgr_And [is_progress, rf_is_min r]] else []))]
                        # others))
             # rest"
proof -
  let ?f = "\<lambda>dst. sbind (py_index x_lvals dst)
                (\<lambda>x_dst. Inr (mgr_And [x_dst, is_progress, rf_is_min r]))"
  have "list_all (\<lambda>dst. \<exists>y. ?f dst = Inr y)
               (filter (\<lambda>dst. dst \<noteq> idx) (map fst (progressT l)))"
    using assms(6) by (fastforce simp: list_all_iff dsts_def)
  from smap_total [OF this] obtain others where others:
    "smap ?f (filter (\<lambda>dst. dst \<noteq> idx) (map fst (progressT l))) = Inr others" ..
  have ranked: "\<not> is_false is_ranked"
    using assms(1,3) by (simp add: get_trans_pre_def)
  have cfg: "cfg_clause l idx lvals x_lvals is_stutter is_ranked is_progress
      = Inr [NImplies l_idx
               (mgr_Or (mgr_And [x_idx,
                  mgr_Or ((if \<not> is_false (stutterT l) then [is_stutter] else [])
                          @ [mgr_And [is_ranked, rf_is_ranked r]]
                          @ (if progress l idx \<noteq> None
                             then [mgr_And [is_progress, rf_is_min r]] else []))]
                        # others))]"
    using assms(1,2,4,5) ranked others
    by (simp add: cfg_clause_def cfg_t_type_def)
  show ?thesis
    unfolding get_trans_def
    by (simp only: assms(3) cfg not_True_eq_False if_False gen_of_simps gen_seq_simps
        fst_conv append_Cons append_Nil) blast
qed

theorem get_trans_ranked_case_witness:
  "\<exists>others rest.
     fst (get_trans
       (Location_init TRUE None (Some (NSymbol ''s'' T_BOOL False))
          (Some (NSymbol ''d'' T_BOOL False))
          (Some \<lparr> rf_is_ranked = NSymbol ''ranked'' T_BOOL False,
                  rf_is_min = NSymbol ''min'' T_BOOL False,
                  rf_is_const = NSymbol ''const'' T_BOOL False,
                  rf_is_decr = NSymbol ''decr'' T_BOOL False \<rparr>)
          (Some [(0, NSymbol ''p0'' T_BOOL False), (1, NSymbol ''p1'' T_BOOL False)])) 0
       [NSymbol ''l0'' T_BOOL False, NSymbol ''l1'' T_BOOL False]
       [NSymbol ''l0'' T_BOOL True, NSymbol ''l1'' T_BOOL True]
       {} [] (NSymbol ''st'' T_BOOL False) (NSymbol ''rk'' T_BOOL False)
       (NSymbol ''pr'' T_BOOL False) (NSymbol ''dec'' T_BOOL False))
     = NImplies (NSymbol ''l0'' T_BOOL False)
         (mgr_Or (NAnd [NSymbol ''l0'' T_BOOL True,
                   NOr [NSymbol ''st'' T_BOOL False,
                        NAnd [NSymbol ''rk'' T_BOOL False, NSymbol ''ranked'' T_BOOL False],
                        NAnd [NSymbol ''pr'' T_BOOL False, NSymbol ''min'' T_BOOL False]]]
                 # others))
       # rest"
  using get_trans_ranked_case [of
      "Location_init TRUE None (Some (NSymbol ''s'' T_BOOL False))
          (Some (NSymbol ''d'' T_BOOL False))
          (Some \<lparr> rf_is_ranked = NSymbol ''ranked'' T_BOOL False,
                  rf_is_min = NSymbol ''min'' T_BOOL False,
                  rf_is_const = NSymbol ''const'' T_BOOL False,
                  rf_is_decr = NSymbol ''decr'' T_BOOL False \<rparr>)
          (Some [(0, NSymbol ''p0'' T_BOOL False), (1, NSymbol ''p1'' T_BOOL False)])"
      "\<lparr> rf_is_ranked = NSymbol ''ranked'' T_BOOL False,
         rf_is_min = NSymbol ''min'' T_BOOL False,
         rf_is_const = NSymbol ''const'' T_BOOL False,
         rf_is_decr = NSymbol ''decr'' T_BOOL False \<rparr>"
      "{}" "NSymbol ''st'' T_BOOL False" "NSymbol ''rk'' T_BOOL False"
      "NSymbol ''pr'' T_BOOL False" "NSymbol ''dec'' T_BOOL False"
      "[NSymbol ''l0'' T_BOOL False, NSymbol ''l1'' T_BOOL False]" 0
      "NSymbol ''l0'' T_BOOL False"
      "[NSymbol ''l0'' T_BOOL True, NSymbol ''l1'' T_BOOL True]"
      "NSymbol ''l0'' T_BOOL True" "[]"]
  by (simp add: Location_init_def TRUE_def get_trans_pre_def py_index_def dsts_def
      progress_def)

section \<open>Properties of Hint\<close>

subsection \<open>A compiled hint is frozen\<close>

lemma alloc_enums_locs: "locs (snd (alloc_enums new_enum h)) = locs h"
  by (simp add: alloc_enums_def Let_def split: option.split sum.split prod.split)

lemma alloc_enums_assigned:
  "alloc_enums new_enum h = (Inr u, h1) \<Longrightarrow> ts_loc_symbs h1 \<noteq> None"
  by (auto simp: alloc_enums_def Let_def split: option.splits sum.splits prod.splits if_splits)

lemma alloc_enums_keeps:
  "ts_loc_symbs h \<noteq> None \<Longrightarrow> ts_loc_symbs (snd (alloc_enums new_enum h)) \<noteq> None"
  by (auto simp: alloc_enums_def)

lemma get_trans_system_locs: "locs (snd (get_trans_system new_enum active h)) = locs h"
proof -
  obtain r h1 where a: "alloc_enums new_enum h = (r, h1)" by (cases "alloc_enums new_enum h")
  then have "locs h1 = locs h" using alloc_enums_locs [of new_enum h] by simp
  then show ?thesis using a
    by (simp add: get_trans_system_def Let_def split: option.split sum.split prod.split)
qed

lemma get_trans_system_assigned:
  assumes "get_trans_system new_enum active h = (Inr r, h')"
  shows "ts_loc_symbs h' \<noteq> None"
proof -
  obtain u h1 where a: "alloc_enums new_enum h = (u, h1)" by (cases "alloc_enums new_enum h")
  show ?thesis
  proof (cases u)
    case (Inl e)
    then show ?thesis using assms a by (simp add: get_trans_system_def split: if_splits)
  next
    case (Inr v)
    then have "ts_loc_symbs h1 \<noteq> None" using a alloc_enums_assigned by blast
    then show ?thesis using assms a Inr
      by (auto simp: get_trans_system_def Let_def split: if_splits option.splits)
  qed
qed

lemma get_trans_system_keeps:
  assumes "ts_loc_symbs h \<noteq> None"
  shows "ts_loc_symbs (snd (get_trans_system new_enum active h)) \<noteq> None"
proof (cases "is_symbol active")
  case False
  then show ?thesis using assms by (simp add: get_trans_system_def)
next
  case True
  obtain u h1 where a: "alloc_enums new_enum h = (u, h1)" by (cases "alloc_enums new_enum h")
  then have "ts_loc_symbs h1 \<noteq> None" using alloc_enums_keeps [OF assms, of new_enum] by simp
  then show ?thesis using a True
    by (auto simp: get_trans_system_def Let_def split: option.splits sum.splits)
qed

lemma apply_op_frozen:
  "ts_loc_symbs h \<noteq> None \<Longrightarrow>
   ts_loc_symbs (apply_op new_enum h op) \<noteq> None \<and> locs (apply_op new_enum h op) = locs h"
  by (cases op) (auto simp: add_def set_locs_def get_trans_system_keeps get_trans_system_locs)

lemma foldl_apply_op_frozen:
  "ts_loc_symbs h \<noteq> None \<Longrightarrow>
   ts_loc_symbs (foldl (apply_op new_enum) h ops) \<noteq> None
   \<and> locs (foldl (apply_op new_enum) h ops) = locs h"
proof (induction ops arbitrary: h)
  case Nil
  then show ?case by simp
next
  case (Cons op ops)
  from apply_op_frozen [OF Cons.prems, of new_enum op]
  have s: "ts_loc_symbs (apply_op new_enum h op) \<noteq> None"
    and l: "locs (apply_op new_enum h op) = locs h" by simp_all
  from Cons.IH [OF s] l show ?case by simp
qed

text \<open>
  Claim C9. Once \<open>get_trans_system\<close> has returned, it has assigned the location-encoding
  symbols, and from then on, whatever calls of \<open>add\<close>, \<open>set_locs\<close> and
  \<open>get_trans_system\<close> are made (\<open>ops\<close>), every call of \<open>add\<close> and of \<open>set_locs\<close>
  fails with an assertion error and the location list is the one that was compiled.
\<close>

theorem compiled_hint_frozen:
  assumes "get_trans_system new_enum active h = (Inr r, h1)"
  shows "add loc (foldl (apply_op new_enum) h1 ops) = Inl AssertionError
       \<and> set_locs ls (foldl (apply_op new_enum) h1 ops) = Inl AssertionError
       \<and> locs (foldl (apply_op new_enum) h1 ops) = locs h"
proof -
  have a: "ts_loc_symbs h1 \<noteq> None" using assms by (rule get_trans_system_assigned)
  have l: "locs h1 = locs h" using get_trans_system_locs [of new_enum active h] assms by simp
  from foldl_apply_op_frozen [OF a, of new_enum ops] l show ?thesis
    by (simp add: add_def set_locs_def)
qed

theorem compiled_hint_frozen_witness:
  "add (Location_init TRUE None None None None None)
     (foldl (apply_op new_enum_onehot)
        (snd (get_trans_system new_enum_onehot (NSymbol ''act'' T_BOOL False) hint0))
        [SetLocs [], GetTransSystem (NSymbol ''act'' T_BOOL False)]) = Inl AssertionError
   \<and> set_locs []
     (foldl (apply_op new_enum_onehot)
        (snd (get_trans_system new_enum_onehot (NSymbol ''act'' T_BOOL False) hint0))
        [SetLocs [], GetTransSystem (NSymbol ''act'' T_BOOL False)]) = Inl AssertionError
   \<and> locs (foldl (apply_op new_enum_onehot)
        (snd (get_trans_system new_enum_onehot (NSymbol ''act'' T_BOOL False) hint0))
        [SetLocs [], GetTransSystem (NSymbol ''act'' T_BOOL False)]) = locs hint0"
proof -
  have "\<not> isl (fst (get_trans_system new_enum_onehot (NSymbol ''act'' T_BOOL False) hint0))"
    by code_simp
  then obtain r where
    "get_trans_system new_enum_onehot (NSymbol ''act'' T_BOOL False) hint0
     = (Inr r, snd (get_trans_system new_enum_onehot (NSymbol ''act'' T_BOOL False) hint0))"
    by (cases "fst (get_trans_system new_enum_onehot (NSymbol ''act'' T_BOOL False) hint0)")
       (simp_all add: prod_eq_iff)
  from compiled_hint_frozen [OF this] show ?thesis .
qed

subsection \<open>An inactive hint\<close>

lemma hint0_compiled:
  "map_sum id (\<lambda>(ts, a). (ts_init ts, ts_trans ts, a))
     (fst (get_trans_system new_enum_onehot (NSymbol ''act'' T_BOOL False) hint0))
   = Inr ([NImplies (NAnd [NSymbol ''h_0'' T_BOOL False, NNot (NSymbol ''h_1'' T_BOOL False)])
     (NAnd [NBool True, NBool True]), NOr [NAnd [NSymbol ''h_0'' T_BOOL False, NNot (NSymbol
     ''h_1'' T_BOOL False)], NAnd [NNot (NSymbol ''h_0'' T_BOOL False), NSymbol ''h_1'' T_BOOL
     False]], NImplies (NNot (NSymbol ''act'' T_BOOL False)) (NAnd [NAnd [NNot (NSymbol ''h_0''
     T_BOOL False), NSymbol ''h_1'' T_BOOL False], NAnd [NSymbol ''h_type_0'' T_BOOL False,
     NNot (NSymbol ''h_type_1'' T_BOOL False), NNot (NSymbol ''h_type_2'' T_BOOL False)]])],
     [NImplies (NAnd [NSymbol ''h_0'' T_BOOL True, NNot (NSymbol ''h_1'' T_BOOL True)]) (NAnd
     [NBool True, NBool True]), NOr [NAnd [NSymbol ''h_0'' T_BOOL True, NNot (NSymbol ''h_1''
     T_BOOL True)], NAnd [NNot (NSymbol ''h_0'' T_BOOL True), NSymbol ''h_1'' T_BOOL True]],
     NImplies (NNot (NSymbol ''act'' T_BOOL False)) (NAnd [NAnd [NNot (NSymbol ''h_0'' T_BOOL
     True), NSymbol ''h_1'' T_BOOL True], NAnd [NSymbol ''h_type_0'' T_BOOL True, NNot (NSymbol
     ''h_type_1'' T_BOOL True), NNot (NSymbol ''h_type_2'' T_BOOL True)]]), NImplies (NAnd
     [NSymbol ''h_0'' T_BOOL False, NNot (NSymbol ''h_1'' T_BOOL False)]) (NAnd [NAnd [NSymbol
     ''h_0'' T_BOOL True, NNot (NSymbol ''h_1'' T_BOOL True)], NAnd [NSymbol ''h_type_0''
     T_BOOL False, NNot (NSymbol ''h_type_1'' T_BOOL False), NNot (NSymbol ''h_type_2'' T_BOOL
     False)]]), NImplies (NAnd [NAnd [NSymbol ''h_0'' T_BOOL False, NNot (NSymbol ''h_1''
     T_BOOL False)], NAnd [NSymbol ''h_0'' T_BOOL True, NNot (NSymbol ''h_1'' T_BOOL True)],
     NAnd [NSymbol ''h_type_0'' T_BOOL False, NNot (NSymbol ''h_type_1'' T_BOOL False), NNot
     (NSymbol ''h_type_2'' T_BOOL False)]]) (NEquals (NSymbol ''x'' T_INT True) (NSymbol ''x''
     T_INT False))], NNot (NAnd [NNot (NSymbol ''h_0'' T_BOOL False), NSymbol ''h_1'' T_BOOL
     False]))"
  by code_simp

lemma hint0_compiled_ok:
  "\<exists>ts a. fst (get_trans_system new_enum_onehot (NSymbol ''act'' T_BOOL False) hint0)
           = Inr (ts, a)"
  using hint0_compiled
  by (cases "fst (get_trans_system new_enum_onehot (NSymbol ''act'' T_BOOL False) hint0)")
     auto

lemma run0_is_run:
  assumes "fst (get_trans_system new_enum_onehot (NSymbol ''act'' T_BOOL False) hint0)
           = Inr (ts, a)"
  shows "is_run q ts run0"
  using hint0_compiled unfolding assms
  by (simp add: is_run_def holds_def step_val_def run0_def)

lemma run0_inactive: "\<not> holds (step_val q run0 k) (NSymbol ''act'' T_BOOL False)"
  by (simp add: holds_def step_val_def run0_def)

text \<open>
  Claim C1, as stated: in a run where \<open>active\<close> is false at every step, every owned
  symbol keeps its value across every transition. \<open>run0\<close> is a run of the transition
  system compiled from \<open>hint0\<close> in which \<open>active\<close> is false at every step and the owned
  symbol \<open>x\<close> changes at the first transition (and at every other).
\<close>

theorem inactive_hint_counterexample:
  "(case fst (get_trans_system new_enum_onehot (NSymbol ''act'' T_BOOL False) hint0) of
      Inl e \<Rightarrow> False
    | Inr (ts, a) \<Rightarrow>
        is_run exact_quot ts run0
        \<and> (\<forall>k. \<not> holds (step_val exact_quot run0 k) (NSymbol ''act'' T_BOOL False))
        \<and> NSymbol ''x'' T_INT False \<in> owned_symbs hint0
        \<and> run0 0 ''x'' \<noteq> run0 1 ''x'')"
proof -
  from hint0_compiled_ok obtain ts a where
    c: "fst (get_trans_system new_enum_onehot (NSymbol ''act'' T_BOOL False) hint0)
        = Inr (ts, a)" by blast
  have "is_run exact_quot ts run0" using c by (rule run0_is_run)
  moreover have "run0 0 ''x'' \<noteq> run0 1 ''x''" by (simp add: run0_def)
  moreover have "NSymbol ''x'' T_INT False \<in> owned_symbs hint0" by (simp add: hint0_def)
  ultimately show ?thesis using run0_inactive by (simp add: c)
qed

lemma py_index_map: "py_index (map f xs) i = map_sum id f (py_index xs i)"
  by (simp add: py_index_def Let_def)

lemma sbind_Inr_iff: "(sbind m f = Inr y) = (\<exists>x. m = Inr x \<and> f x = Inr y)"
  by (cases m) auto

lemma build_trans_system_inactive:
  assumes "build_trans_system h active lvals symbs0 st rk pr d = Inr (ts, a)"
  shows "\<exists>inactive. py_index lvals (- 1) = Inr inactive \<and> a = NNot inactive
     \<and> ts_symbs ts = all_symbs h \<union> symbs0
     \<and> NImplies (NNot active) (NAnd [inactive, st]) \<in> set (ts_init ts)
     \<and> NImplies (NNot active)
          (NAnd [to_next symbs0 inactive, to_next (all_symbs h \<union> symbs0) st])
        \<in> set (ts_trans ts)"
proof (cases "py_index lvals (- 1)")
  case (Inl e)
  then show ?thesis using assms by (simp add: build_trans_system_def Let_def)
next
  case (Inr inactive)
  then have x: "py_index (map (to_next symbs0) lvals) (- 1) = Inr (to_next symbs0 inactive)"
    by (simp add: py_index_map)
  let ?S = "all_symbs h \<union> symbs0"
  let ?c = "NImplies (NNot active) (NAnd [to_next symbs0 inactive, to_next ?S st])"
  obtain cs e where lt:
    "locs_trans (enumerate 0 (locs h)) lvals (map (to_next symbs0) lvals) ?S (locs h)
       st rk pr d = (cs, e)"
    by (cases "locs_trans (enumerate 0 (locs h)) lvals (map (to_next symbs0) lvals) ?S
                 (locs h) st rk pr d")
  show ?thesis
  proof (cases "is_false d")
    case True
    then show ?thesis using assms Inr x lt
      by (cases e) (auto simp: build_trans_system_def Let_def)
  next
    case False
    show ?thesis
    proof (cases "symb2next d")
      case (Inl e')
      then show ?thesis using assms Inr x lt False
        by (simp add: build_trans_system_def Let_def)
    next
      case xd: (Inr x_d)
      then show ?thesis using assms Inr x lt False
        by (cases e) (auto simp: build_trans_system_def Let_def)
    qed
  qed
qed

lemma build_trans_system_run:
  assumes b: "build_trans_system h2 active lvals symbs0 st rk pr d = Inr (ts, a)"
    and run: "is_run q ts \<sigma>"
    and off: "\<forall>k. \<not> holds (step_val q \<sigma> k) active"
  shows "\<exists>inactive. py_index lvals (- 1) = Inr inactive \<and> a = NNot inactive
         \<and> holds (step_val q \<sigma> 0) inactive \<and> holds (step_val q \<sigma> 0) st
         \<and> (\<forall>k. holds (step_val q \<sigma> k) (to_next symbs0 inactive)
                \<and> holds (step_val q \<sigma> k) (to_next (ts_symbs ts) st))"
proof -
  from build_trans_system_inactive [OF b] obtain inactive where
    i: "py_index lvals (- 1) = Inr inactive" "a = NNot inactive"
       "ts_symbs ts = all_symbs h2 \<union> symbs0"
       "NImplies (NNot active) (NAnd [inactive, st]) \<in> set (ts_init ts)"
       "NImplies (NNot active)
          (NAnd [to_next symbs0 inactive, to_next (all_symbs h2 \<union> symbs0) st])
        \<in> set (ts_trans ts)"
    by blast
  have init: "holds (step_val q \<sigma> 0) (NImplies (NNot active) (NAnd [inactive, st]))"
    using run i(4) by (simp add: is_run_def list_all_iff)
  have tr: "holds (step_val q \<sigma> k) (NImplies (NNot active)
          (NAnd [to_next symbs0 inactive, to_next (ts_symbs ts) st]))" for k
    using run i(5) i(3) by (simp add: is_run_def list_all_iff)
  have i0: "holds (step_val q \<sigma> 0) inactive \<and> holds (step_val q \<sigma> 0) st"
    using init off by (auto simp: holds_def split: if_splits)
  have tk: "holds (step_val q \<sigma> k) (to_next symbs0 inactive)
          \<and> holds (step_val q \<sigma> k) (to_next (ts_symbs ts) st)" for k
    using tr [of k] off by (auto simp: holds_def split: if_splits)
  show ?thesis using i(1,2) i0 tk by blast
qed

text \<open>
  Claim C1, amended. For every compiled hint and every run of its transition system in
  which \<open>active\<close> is false at every step: in the first state the location value is the
  inactive one and the transition type is STUTTER, and at every step the next-state
  copies of both hold (\<open>inactive'\<close> and \<open>t_is_stutter'\<close>, renamed with the sets of symbols
  \<open>get_trans_system\<close> uses).
\<close>

theorem inactive_hint_stutters:
  assumes "get_trans_system new_enum active h = (Inr (ts, a), h')"
    and "is_run q ts \<sigma>"
    and "\<forall>k. \<not> holds (step_val q \<sigma> k) active"
  shows "\<exists>lvals inactive stutter loc_symbs type_symbs d.
           ts_lvals h' = Some lvals \<and> py_index lvals (- 1) = Inr inactive
         \<and> t_is_stutter h' = Some stutter \<and> a = NNot inactive
         \<and> ts_loc_symbs h' = Some loc_symbs \<and> trans_type_symbs h' = Some type_symbs
         \<and> is_rank_decr h' = Some d
         \<and> holds (step_val q \<sigma> 0) inactive \<and> holds (step_val q \<sigma> 0) stutter
         \<and> (\<forall>k. holds (step_val q \<sigma> k)
                    (to_next (insert active (set loc_symbs \<union> set type_symbs)
                              \<union> (if is_false d then {} else {d})) inactive)
                \<and> holds (step_val q \<sigma> k) (to_next (ts_symbs ts) stutter))"
proof -
  obtain u h1 where al: "alloc_enums new_enum h = (u, h1)"
    by (cases "alloc_enums new_enum h")
  from assms(1) al obtain loc_symbs lvals type_symbs st rk pr where
    f: "ts_loc_symbs h1 = Some loc_symbs" "ts_lvals h1 = Some lvals"
       "trans_type_symbs h1 = Some type_symbs" "t_is_stutter h1 = Some st"
       "t_is_ranked h1 = Some rk" "t_is_progress h1 = Some pr"
    by (auto simp: get_trans_system_def Let_def split: if_splits sum.splits option.splits)
  let ?S0 = "insert active (set loc_symbs \<union> set type_symbs)"
  show ?thesis
  proof (cases "list_all (\<lambda>loc. rf loc = None) (locs h1)")
    case True
    let ?h2 = "h1\<lparr> t_is_ranked := Some FALSE, is_rank_decr := Some FALSE \<rparr>"
    have b: "build_trans_system ?h2 active lvals ?S0 st FALSE pr FALSE = Inr (ts, a)"
      and h': "h' = ?h2"
      using assms(1) al f True
      by (auto simp: get_trans_system_def Let_def split: if_splits sum.splits)
    from build_trans_system_run [OF b assms(2,3)] obtain inactive where
      "py_index lvals (- 1) = Inr inactive" "a = NNot inactive"
      "holds (step_val q \<sigma> 0) inactive" "holds (step_val q \<sigma> 0) st"
      "\<forall>k. holds (step_val q \<sigma> k) (to_next ?S0 inactive)
           \<and> holds (step_val q \<sigma> k) (to_next (ts_symbs ts) st)"
      by blast
    then show ?thesis using f h' by (simp add: FALSE_def)
  next
    case False
    let ?d = "NSymbol (''_'' @ name h1 @ ''_dec_rank'') T_BOOL False"
    let ?h2 = "h1\<lparr> is_rank_decr := Some ?d \<rparr>"
    have b: "build_trans_system ?h2 active lvals (insert ?d ?S0) st rk pr ?d = Inr (ts, a)"
      and h': "h' = ?h2"
      using assms(1) al f False
      by (auto simp: get_trans_system_def Let_def split: if_splits sum.splits)
    from build_trans_system_run [OF b assms(2,3)] obtain inactive where
      "py_index lvals (- 1) = Inr inactive" "a = NNot inactive"
      "holds (step_val q \<sigma> 0) inactive" "holds (step_val q \<sigma> 0) st"
      "\<forall>k. holds (step_val q \<sigma> k) (to_next (insert ?d ?S0) inactive)
           \<and> holds (step_val q \<sigma> k) (to_next (ts_symbs ts) st)"
      by blast
    then show ?thesis using f h' by (simp add: insert_commute)
  qed
qed

theorem inactive_hint_stutters_witness:
  "\<exists>lvals inactive stutter loc_symbs type_symbs d.
     ts_lvals (snd (get_trans_system new_enum_onehot (NSymbol ''act'' T_BOOL False) hint0)) = Some lvals \<and> py_index lvals (- 1) = Inr inactive
   \<and> t_is_stutter (snd (get_trans_system new_enum_onehot (NSymbol ''act'' T_BOOL False) hint0)) = Some stutter
   \<and> snd (projr (fst (get_trans_system new_enum_onehot (NSymbol ''act'' T_BOOL False) hint0))) = NNot inactive
   \<and> ts_loc_symbs (snd (get_trans_system new_enum_onehot (NSymbol ''act'' T_BOOL False) hint0)) = Some loc_symbs
   \<and> trans_type_symbs (snd (get_trans_system new_enum_onehot (NSymbol ''act'' T_BOOL False) hint0)) = Some type_symbs
   \<and> is_rank_decr (snd (get_trans_system new_enum_onehot (NSymbol ''act'' T_BOOL False) hint0)) = Some d
   \<and> holds (step_val exact_quot run0 0) inactive \<and> holds (step_val exact_quot run0 0) stutter
   \<and> (\<forall>k. holds (step_val exact_quot run0 k)
              (to_next (insert (NSymbol ''act'' T_BOOL False)
                          (set loc_symbs \<union> set type_symbs)
                        \<union> (if is_false d then {} else {d})) inactive)
          \<and> holds (step_val exact_quot run0 k)
              (to_next (ts_symbs (fst (projr (fst (get_trans_system new_enum_onehot (NSymbol ''act'' T_BOOL False) hint0))))) stutter))"
proof -
  from hint0_compiled_ok obtain ts a where
    c: "fst (get_trans_system new_enum_onehot (NSymbol ''act'' T_BOOL False) hint0) = Inr (ts, a)" by blast
  then have g: "get_trans_system new_enum_onehot (NSymbol ''act'' T_BOOL False) hint0 = (Inr (ts, a), snd (get_trans_system new_enum_onehot (NSymbol ''act'' T_BOOL False) hint0))"
    by (simp add: prod_eq_iff)
  have r: "is_run exact_quot ts run0" using c by (rule run0_is_run)
  have off: "\<forall>k. \<not> holds (step_val exact_quot run0 k) (NSymbol ''act'' T_BOOL False)"
    using run0_inactive by blast
  from inactive_hint_stutters [OF g r off] show ?thesis by (simp add: c)
qed

section \<open>Properties of Expr\<close>

subsection \<open>is_one\<close>

text \<open>
  Claim C8. \<open>is_one()\<close> is meant to be true when the only nonzero coefficient is \<open>1\<close> on
  the constant key, also when the map holds entries whose coefficient is \<open>0\<close>. The code
  tests that the map has exactly one key: adding \<open>-x\<close> to \<open>1 + x\<close> with \<open>plus\<close> leaves the
  map \<open>{1: 1, x: 0}\<close>, on which \<open>is_one()\<close> is false; \<open>is_zero()\<close> does ignore such an
  entry (it is true on \<open>{x: 0}\<close>).
\<close>

theorem is_one_with_zero_entry:
  "sbind (plus \<lparr> expr_type = T_INT,
                  symb2coef = [(NInt 1, 1), (NSymbol ''x'' T_INT False, 1)] \<rparr>
               [\<lparr> expr_type = T_INT, symb2coef = [(NSymbol ''x'' T_INT False, - 1)] \<rparr>])
         (\<lambda>e. Inr (symb2coef e, is_one e))
   = Inr ([(NInt 1, 1), (NSymbol ''x'' T_INT False, 0)], False)
   \<and> is_zero \<lparr> expr_type = T_INT, symb2coef = [(NSymbol ''x'' T_INT False, 0)] \<rparr>"
  by (simp add: plus1_def dict_add_def is_one_def is_zero_def number_int_def)

subsection \<open>The distribution of products\<close>

lemma arith_get_type: "arith t f \<Longrightarrow> get_type f = t"
proof (induction t f rule: arith.induct)
  case (4 t as)
  then show ?case by (cases as) (auto simp: list_all_iff)
next
  case (6 t as)
  then show ?case by (cases as) (auto simp: list_all_iff)
qed auto

lemma sum_list_map_times_right:
  "sum_list (map (\<lambda>x. f x * c) xs) = sum_list (map f xs) * (c::rat)"
  by (induction xs) (simp_all add: algebra_simps)

lemma sum_list_map_times_left:
  "sum_list (map (\<lambda>x. c * f x) xs) = (c::rat) * sum_list (map f xs)"
  by (induction xs) (simp_all add: algebra_simps)

lemma sum_list_map_cong_eval:
  "(\<And>x. x \<in> set xs \<Longrightarrow> f x = g x) \<Longrightarrow> sum_list (map f xs) = sum_list (map g xs)"
  by (induction xs) simp_all

lemma dist_right_eval: "eval v (dist_right x y) = eval v x * eval v y"
proof (induction x y rule: dist_right.induct)
  case (1 x ys)
  have "eval v (dist_right x (NPlus ys)) = sum_list (map (\<lambda>y. eval v (dist_right x y)) ys)"
    by (simp add: comp_def)
  also have "\<dots> = sum_list (map (\<lambda>y. eval v x * eval v y) ys)"
    by (rule sum_list_map_cong_eval) (rule 1)
  finally show ?case by (simp add: sum_list_map_times_left)
qed (simp_all add: algebra_simps)

lemma dist2_eval: "eval v (dist2 x y) = eval v x * eval v y"
proof (induction x y rule: dist2.induct)
  case (1 xs y)
  have "eval v (dist2 (NPlus xs) y) = sum_list (map (\<lambda>x. eval v (dist2 x y)) xs)"
    by (simp add: comp_def)
  also have "\<dots> = sum_list (map (\<lambda>x. eval v x * eval v y) xs)"
    by (rule sum_list_map_cong_eval) (rule 1)
  finally show ?case by (simp add: sum_list_map_times_right)
qed (simp_all add: algebra_simps dist_right_eval)

lemma dist_right_arith: "arith t x \<Longrightarrow> arith t y \<Longrightarrow> arith t (dist_right x y)"
  by (induction x y rule: dist_right.induct) (auto simp: list_all_iff)

lemma dist2_arith: "arith t x \<Longrightarrow> arith t y \<Longrightarrow> arith t (dist2 x y)"
  by (induction x y rule: dist2.induct) (auto simp: list_all_iff dist_right_arith)

lemma foldl_dist2_arith:
  "arith t x \<Longrightarrow> list_all (arith t) xs \<Longrightarrow> arith t (foldl dist2 x xs)"
  by (induction xs arbitrary: x) (auto simp: dist2_arith)

lemma foldl_dist2_eval:
  "eval v (foldl dist2 x xs) = eval v x * prod_list (map (eval v) xs)"
  by (induction xs arbitrary: x) (auto simp: dist2_eval algebra_simps)

lemma td_arith: "arith t f \<Longrightarrow> arith t (td f)"
proof (induction f rule: td.induct)
  case (3 as)
  then obtain a as' where as: "as = a # as'" by (cases as) auto
  have "arith t (td a)" and "list_all (arith t) (map td as')"
    using 3 as by (auto simp: list_all_iff)
  then show ?case using as by (simp add: foldl_dist2_arith)
qed (auto simp: list_all_iff)

lemma td_eval: "arith t f \<Longrightarrow> eval v (td f) = eval v f"
proof (induction f rule: td.induct)
  case (1 as)
  then have "\<And>a. a \<in> set as \<Longrightarrow> eval v (td a) = eval v a" by (auto simp: list_all_iff)
  then have "sum_list (map (\<lambda>a. eval v (td a)) as) = sum_list (map (eval v) as)"
    by (rule sum_list_map_cong_eval)
  then show ?case by (simp add: comp_def)
next
  case (3 as)
  then obtain a as' where as: "as = a # as'" by (cases as) auto
  have e: "\<And>b. b \<in> set as \<Longrightarrow> eval v (td b) = eval v b"
    using 3 by (auto simp: list_all_iff)
  have "map (eval v) (map td as') = map (eval v) as'"
    using e as by simp
  then show ?case using as e by (simp add: foldl_dist2_eval del: map_map)
next
  case (4 a b)
  then have "get_type (td a) = get_type a"
    using td_arith arith_get_type by (metis arith.simps(7))
  then show ?case using 4 by simp
qed auto

lemma dist_right_sop: "prod_ok x \<Longrightarrow> sop y \<Longrightarrow> sop (dist_right x y)"
  by (induction x y rule: dist_right.induct) (auto simp: list_all_iff)

lemma dist2_sop: "sop x \<Longrightarrow> sop y \<Longrightarrow> sop (dist2 x y)"
  by (induction x y rule: dist2.induct) (auto simp: list_all_iff dist_right_sop)

lemma foldl_dist2_sop: "sop x \<Longrightarrow> list_all sop xs \<Longrightarrow> sop (foldl dist2 x xs)"
  by (induction xs arbitrary: x) (auto simp: dist2_sop)

lemma td_sop: "sop (td f)"
proof (induction f rule: td.induct)
  case (3 as)
  show ?case
  proof (cases as)
    case Nil
    then show ?thesis by simp
  next
    case (Cons a as')
    then show ?thesis using 3 by (simp add: foldl_dist2_sop list_all_iff)
  qed
qed (auto simp: list_all_iff)

subsection \<open>Weights\<close>

lemma weight_pos: "0 < weight f"
  by (cases f) simp_all

lemma weight_prod_ok: "prod_ok p \<Longrightarrow> weight p = 1"
  by (cases p) simp_all

lemma weight_dist_right: "weight (dist_right x y) = weight y"
proof (induction x y rule: dist_right.induct)
  case (1 x ys)
  have "sum_list (map (\<lambda>y. weight (dist_right x y)) ys) = sum_list (map weight ys)"
    by (rule sum_list_map_cong_eval) (rule 1)
  then show ?case by (simp add: comp_def)
qed simp_all

lemma prod_ok_dist2: "prod_ok x \<Longrightarrow> prod_ok y \<Longrightarrow> dist2 x y = NTimes [x, y]"
  by (cases x; cases y) simp_all

lemma prod_ok_foldl_dist2:
  "prod_ok x \<Longrightarrow> list_all prod_ok xs \<Longrightarrow> prod_ok (foldl dist2 x xs)"
  by (induction xs arbitrary: x) (simp_all add: prod_ok_dist2)

lemma prod_ok_td: "prod_ok p \<Longrightarrow> prod_ok (td p)"
proof (induction p rule: td.induct)
  case (3 as)
  show ?case
  proof (cases as)
    case Nil
    then show ?thesis by simp
  next
    case (Cons a as')
    then show ?thesis using 3 by (simp add: prod_ok_foldl_dist2 list_all_iff)
  qed
qed simp_all

lemma weight_td: "sop f \<Longrightarrow> weight (td f) = weight f"
proof (induction f rule: td.induct)
  case (1 as)
  then have "\<And>a. a \<in> set as \<Longrightarrow> weight (td a) = weight a" by (simp add: list_all_iff)
  then have "sum_list (map (\<lambda>a. weight (td a)) as) = sum_list (map weight as)"
    by (rule sum_list_map_cong_eval)
  then show ?case by (simp add: comp_def)
next
  case (3 as)
  then have "prod_ok (td (NTimes as))" using prod_ok_td [of "NTimes as"] by simp
  then show ?case by (simp add: weight_prod_ok)
qed simp_all

lemma td_neg_weight:
  assumes "sop b"
  shows "weight (td (NTimes [number_int t (- 1), b])) = weight b"
proof -
  have "td (NTimes [number_int t (- 1), b]) = dist_right (number_int t (- 1)) (td b)"
    by (simp add: number_int_def)
  then show ?thesis using assms by (simp add: weight_dist_right weight_td)
qed

subsection \<open>Coefficient maps\<close>

lemma coefs_value_Nil [simp]: "coefs_value v [] = 0"
  by (simp add: coefs_value_def)

lemma coefs_value_Cons [simp]:
  "coefs_value v ((k, c) # d) = c * eval v k + coefs_value v d"
  by (simp add: coefs_value_def)

lemma coefs_value_append [simp]:
  "coefs_value v (d @ d') = coefs_value v d + coefs_value v d'"
  by (simp add: coefs_value_def)

lemma coefs_value_dict_set:
  "coefs_value v (dict_set d k x) = coefs_value v d + (x - coef_of d k) * eval v k"
  by (induction d) (auto simp: coef_of_def algebra_simps)

lemma coefs_value_dict_add:
  "coefs_value v (dict_add d k c) = coefs_value v d + c * eval v k"
  by (simp add: dict_add_def coefs_value_dict_set coef_of_def)

lemma keys_dict_set:
  "map fst (dict_set d k x) = (if k \<in> fst ` set d then map fst d else map fst d @ [k])"
  by (induction d) (auto split: if_splits)

lemma dict_get_dict_set: "dict_get (dict_set d k x) k = Some x"
  by (induction d) auto

lemma dict_get_None: "(dict_get d k = None) = (k \<notin> fst ` set d)"
  by (induction d) (auto split: if_splits)

lemma dict_get_mem: "dict_get d k = Some c \<Longrightarrow> (k, c) \<in> set d"
  by (induction d) (auto split: if_splits)

lemma dict_get_distinct: "distinct (map fst d) \<Longrightarrow> (k, c) \<in> set d \<Longrightarrow> dict_get d k = Some c"
  by (induction d) (auto simp: rev_image_eqI)

lemma set_dict_set: "set (dict_set d k x) \<subseteq> insert (k, x) (set d)"
  by (induction d) (auto split: if_splits)

lemma coefs_value_dict_pop:
  "distinct (map fst d) \<Longrightarrow> dict_get d k = Some 0 \<Longrightarrow>
   coefs_value v (dict_pop d k) = coefs_value v d"
proof (induction d)
  case Nil
  then show ?case by simp
next
  case (Cons kv d)
  obtain k' c' where kv: "kv = (k', c')" by (cases kv)
  show ?case
  proof (cases "k' = k")
    case True
    then have "k \<notin> fst ` set d" using Cons.prems kv by auto
    then have "filter (\<lambda>kv. fst kv \<noteq> k) d = d" by (auto simp: filter_id_conv)
    then show ?thesis using True kv Cons.prems by (simp add: dict_pop_def)
  next
    case False
    then show ?thesis using Cons kv by (simp add: dict_pop_def)
  qed
qed

lemma coefs_value_dict_add_prune:
  "distinct (map fst d) \<Longrightarrow>
   coefs_value v (dict_add_prune d k c) = coefs_value v d + c * eval v k"
proof -
  assume d: "distinct (map fst d)"
  have "distinct (map fst (dict_add d k c))"
    using d by (auto simp: dict_add_def keys_dict_set)
  then show ?thesis
    by (simp add: dict_add_prune_def Let_def coefs_value_dict_pop coefs_value_dict_add)
qed

lemma coefs_ok_dict_add:
  assumes "coefs_ok fkey t d" and "key_ok fkey t k" and "t = T_REAL \<or> c \<in> \<int>"
  shows "coefs_ok fkey t (dict_add d k c)"
proof -
  let ?x = "(case dict_get d k of None \<Rightarrow> 0 | Some c' \<Rightarrow> c') + c"
  have s: "set (dict_set d k ?x) \<subseteq> insert (k, ?x) (set d)" by (rule set_dict_set)
  have "distinct (map fst (dict_set d k ?x))"
    using assms(1) by (auto simp: coefs_ok_def keys_dict_set)
  moreover have "list_all (\<lambda>kv. key_ok fkey t (fst kv)) (dict_set d k ?x)"
    using assms(1,2) s by (auto simp: coefs_ok_def list_all_iff)
  moreover have "t = T_REAL \<or> list_all (\<lambda>kv. snd kv \<in> \<int>) (dict_set d k ?x)"
  proof (cases "t = T_REAL")
    case False
    then have i: "list_all (\<lambda>kv. snd kv \<in> \<int>) d" and c: "c \<in> \<int>"
      using assms by (auto simp: coefs_ok_def)
    have "?x \<in> \<int>"
    proof (cases "dict_get d k")
      case None
      then show ?thesis using c by simp
    next
      case (Some c')
      then have "c' \<in> \<int>" using i dict_get_mem [OF Some] by (auto simp: list_all_iff)
      then show ?thesis using c Some by simp
    qed
    then show ?thesis using i s by (auto simp: list_all_iff)
  qed simp
  ultimately show ?thesis by (simp add: coefs_ok_def dict_add_def)
qed

lemma coefs_ok_dict_pop: "coefs_ok fkey t d \<Longrightarrow> coefs_ok fkey t (dict_pop d k)"
  by (auto simp: coefs_ok_def dict_pop_def list_all_iff distinct_map_filter)

lemma coefs_ok_dict_add_prune:
  assumes "coefs_ok fkey t d" and "key_ok fkey t k" and "t = T_REAL \<or> c \<in> \<int>"
  shows "coefs_ok fkey t (dict_add_prune d k c)"
  using coefs_ok_dict_add [OF assms]
  by (simp add: dict_add_prune_def Let_def coefs_ok_dict_pop)



lemma prod_list_insort_key:
  "prod_list (map f (insort_key g x xs)) = f x * prod_list (map f xs)"
  for f :: "'a \<Rightarrow> rat"
  by (induction xs) (simp_all add: ac_simps)

lemma prod_list_sort_key:
  "prod_list (map f (sort_key g xs)) = prod_list (map f xs)"
  for f :: "'a \<Rightarrow> rat"
  by (induction xs) (simp_all add: prod_list_insort_key)

subsection \<open>Closed terms and the factors of a product\<close>

lemma is_constant_closed: "is_constant f \<Longrightarrow> get_free_vars f = {}"
  by (cases f) simp_all

lemma constant_value_Inr: "constant_value g = Inr c \<Longrightarrow> is_constant g \<and> eval v g = c"
  by (cases g) auto

lemma simp_value:
  assumes "t = T_INT \<or> t = T_REAL" and "simp_typed simplify" and "simp_sound simplify v"
    and "arith t f" and "get_free_vars f = {}" and "constant_value (simplify f) = Inr c"
  shows "(t = T_REAL \<or> c \<in> \<int>) \<and> eval v f = c"
proof -
  from constant_value_Inr [OF assms(6)]
  have k: "is_constant (simplify f)" and e: "eval v (simplify f) = c" by auto
  have ty: "get_type (simplify f) = t"
    using assms(2,4,5) k unfolding simp_typed_def by blast
  have "eval v (simplify f) = eval v f"
    using assms(3,4,5) k unfolding simp_sound_def by blast
  moreover have "t = T_REAL \<or> c \<in> \<int>"
    using assms(6) ty assms(1) by (cases "simplify f") auto
  ultimately show ?thesis using e by simp
qed

lemma times_factors_ok:
  assumes t: "t = T_INT \<or> t = T_REAL"
  shows "simp_typed simplify \<Longrightarrow> simp_sound simplify v \<Longrightarrow>
         times_factors simplify fs c0 symbs0 = Inr (c, symbs) \<Longrightarrow>
         list_all (\<lambda>f. arith t f \<and> prod_ok f) fs \<Longrightarrow> list_all monomial_factor symbs0 \<Longrightarrow>
         t = T_REAL \<or> c0 \<in> \<int> \<Longrightarrow>
         list_all monomial_factor symbs \<and> (t = T_REAL \<or> c \<in> \<int>)
         \<and> c * prod_list (map (eval v) symbs)
           = c0 * prod_list (map (eval v) symbs0) * prod_list (map (eval v) fs)"
proof (induction simplify fs c0 symbs0 rule: times_factors.induct)
  case (1 simplify const symbs0)
  then show ?case by simp
next
  case (2 simplify factor factors const symbs0)
  note ty = "2.prems"(1) and so = "2.prems"(2) and r = "2.prems"(3)
    and ms = "2.prems"(5) and ci = "2.prems"(6)
  from "2.prems"(4) have f: "arith t factor" "prod_ok factor"
    and fs: "list_all (\<lambda>f. arith t f \<and> prod_ok f) factors" by simp_all
  have closed: "constant_value (simplify factor) = Inr k \<Longrightarrow> get_free_vars factor = {} \<Longrightarrow>
      (t = T_REAL \<or> const * k \<in> \<int>) \<and> eval v factor = k" for k
    using simp_value [OF t ty so f(1)] ci by auto
  show ?case
  proof (cases factor)
    case (NSymbol n st x)
    have r': "times_factors simplify factors const (symbs0 @ [factor]) = Inr (c, symbs)"
      using r NSymbol by simp
    have s: "list_all monomial_factor (symbs0 @ [factor])" using ms NSymbol by simp
    from "2.IH"(1) [OF NSymbol ty so r' fs s ci] NSymbol
    show ?thesis by (simp add: algebra_simps)
  next
    case (NInt i)
    have cl: "is_constant factor \<or> get_free_vars factor = {}" using NInt by simp
    from r NInt obtain k where k: "constant_value (simplify factor) = Inr k"
      and r': "times_factors simplify factors (const * k) symbs0 = Inr (c, symbs)"
      by (auto split: sum.splits)
    from closed [OF k] NInt have kv: "t = T_REAL \<or> const * k \<in> \<int>" "eval v factor = k"
      by simp_all
    from "2.IH"(4) [OF NInt cl k ty so r' fs ms kv(1)] kv(2)
    show ?thesis by (simp add: algebra_simps)
  next
    case (NReal q)
    have cl: "is_constant factor \<or> get_free_vars factor = {}" using NReal by simp
    from r NReal obtain k where k: "constant_value (simplify factor) = Inr k"
      and r': "times_factors simplify factors (const * k) symbs0 = Inr (c, symbs)"
      by (auto split: sum.splits)
    from closed [OF k] NReal have kv: "t = T_REAL \<or> const * k \<in> \<int>" "eval v factor = k"
      by simp_all
    from "2.IH"(6) [OF NReal cl k ty so r' fs ms kv(1)] kv(2)
    show ?thesis by (simp add: algebra_simps)
  next
    case (NTimes as)
    have a: "list_all (\<lambda>f. arith t f \<and> prod_ok f) (factors @ as)"
      using f fs NTimes by (auto simp: list_all_iff)
    have r': "times_factors simplify (factors @ as) const symbs0 = Inr (c, symbs)"
      using r NTimes by simp
    from "2.IH"(24) [OF NTimes ty so r' a ms ci] NTimes
    show ?thesis by (simp add: algebra_simps)
  next
    case (NDiv a b)
    show ?thesis
    proof (cases "get_free_vars factor = {}")
      case True
      then have cl: "is_constant factor \<or> get_free_vars factor = {}" by simp
      from r NDiv True obtain k where k: "constant_value (simplify factor) = Inr k"
        and r': "times_factors simplify factors (const * k) symbs0 = Inr (c, symbs)"
        by (auto split: sum.splits simp del: get_free_vars.simps)
      from closed [OF k True] have kv: "t = T_REAL \<or> const * k \<in> \<int>" "eval v factor = k"
        by simp_all
      from "2.IH"(25) [OF NDiv cl k ty so r' fs ms kv(1)] kv(2)
      show ?thesis by (simp add: algebra_simps del: get_free_vars.simps eval.simps)
    next
      case False
      then have ncl: "\<not> (is_constant factor \<or> get_free_vars factor = {})"
        using NDiv by simp
      have r': "times_factors simplify factors const (symbs0 @ [factor]) = Inr (c, symbs)"
        using r NDiv False by (simp del: get_free_vars.simps)
      have s: "list_all monomial_factor (symbs0 @ [factor])" using ms NDiv by simp
      from "2.IH"(26) [OF NDiv ncl ty so r' fs s ci]
      show ?thesis by (simp add: algebra_simps del: get_free_vars.simps eval.simps)
    qed
  qed (use f in simp_all)
qed

subsection \<open>The loop of plus_fnode\<close>

lemma mgr_Times_ok:
  assumes "xs \<noteq> []" and "list_all monomial_factor xs" and "sorted (map fkey xs)"
  shows "\<exists>k. mgr_Times xs = Inr k \<and> key_ok fkey t k
           \<and> (\<forall>v. eval v k = prod_list (map (eval v) xs))"
proof (cases xs)
  case Nil
  then show ?thesis using assms by simp
next
  case (Cons x xs')
  show ?thesis
  proof (cases xs')
    case Nil
    then show ?thesis using Cons assms by (cases x) simp_all
  next
    case (Cons y ys)
    then show ?thesis using \<open>xs = x # xs'\<close> assms by simp
  qed
qed

lemma number_int_arith: "t = T_INT \<or> t = T_REAL \<Longrightarrow> arith t (number_int t i)"
  by (auto simp: number_int_def)

lemma number_int_eval: "eval v (number_int t i) = of_int i"
  by (simp add: number_int_def)

lemma key_ok_one: "key_ok fkey t (number_int t 1)"
  by (simp add: number_int_def)

lemma plus_fnode_step_ok:
  assumes t: "t = T_INT \<or> t = T_REAL"
    and ty: "simp_typed simplify" and so: "simp_sound simplify v"
    and a: "arith t cur" and s: "sop cur" and d: "coefs_ok fkey t d"
    and st: "plus_fnode_step simplify fkey t False cur d = Inr (pushed, d')"
  shows "coefs_ok fkey t d' \<and> list_all (\<lambda>f. arith t f \<and> sop f) pushed
         \<and> sum_list (map weight pushed) < weight cur
         \<and> coefs_value v d' + sum_list (map (eval v) pushed) = coefs_value v d + eval v cur"
proof (cases "get_free_vars cur = {}")
  case True
  from st True obtain c where c: "constant_value (simplify cur) = Inr c"
    and r: "pushed = []" "d' = dict_add_prune d (number_int t 1) c"
    by (auto simp: plus_fnode_step_def sbind_Inr_iff split: if_splits)
  from simp_value [OF t ty so a True c]
  have ci: "t = T_REAL \<or> c \<in> \<int>" and ev: "eval v cur = c" by simp_all
  have ok: "coefs_ok fkey t (dict_add_prune d (number_int t 1) c)"
    using d key_ok_one ci by (rule coefs_ok_dict_add_prune)
  have dd: "distinct (map fst d)" using d by (simp add: coefs_ok_def)
  show ?thesis
    unfolding r using ok weight_pos [of cur] ev
    by (simp add: coefs_value_dict_add_prune [OF dd] number_int_eval)
next
  case False
  then have nc: "\<not> (is_constant cur \<or> get_free_vars cur = {})"
    using is_constant_closed by blast
  show ?thesis
  proof (cases cur)
    case (NSymbol n st' x)
    have r: "pushed = []" "d' = dict_add d cur 1"
      using st NSymbol by (simp_all add: plus_fnode_step_def)
    have "coefs_ok fkey t (dict_add d cur 1)"
      using d NSymbol by (intro coefs_ok_dict_add) simp_all
    then show ?thesis unfolding r using NSymbol
      by (simp add: coefs_value_dict_add)
  next
    case (NPlus as)
    have r: "pushed = rev as" "d' = d"
      using st nc NPlus by (simp_all add: plus_fnode_step_def del: get_free_vars.simps)
    have "list_all (\<lambda>f. arith t f \<and> sop f) (rev as)"
      using a s NPlus by (simp add: list_all_iff)
    moreover have "sum_list (map weight (rev as)) < weight cur"
      using NPlus by (simp add: rev_map [symmetric])
    moreover have "sum_list (map (eval v) (rev as)) = eval v cur"
      using NPlus by (simp add: rev_map [symmetric])
    ultimately show ?thesis unfolding r using d by simp
  next
    case (NMinus p q)
    let ?n = "td (NTimes [number_int t (- 1), q])"
    have r: "pushed = [?n, p]" "d' = d"
      using st nc NMinus
      by (simp_all add: plus_fnode_step_def del: get_free_vars.simps td.simps)
    have an: "arith t (NTimes [number_int t (- 1), q])"
      using a NMinus number_int_arith [OF t] by simp
    have "arith t ?n" using an by (rule td_arith)
    moreover have "sop ?n" by (rule td_sop)
    moreover have "weight ?n = weight q"
    proof -
      have "sop q" using s NMinus by simp
      then show ?thesis by (rule td_neg_weight)
    qed
    moreover have "eval v ?n = - eval v q"
      using td_eval [OF an, of v] by (simp add: number_int_eval)
    ultimately show ?thesis
      unfolding r using a s d NMinus by simp
  next
    case (NTimes as)
    have fs: "list_all (\<lambda>f. arith t f \<and> prod_ok f) as"
      using a s NTimes by (simp add: list_all_iff)
    from st nc NTimes obtain c symbs where
      tf: "times_factors simplify as 1 [] = Inr (c, symbs)"
      by (auto simp: plus_fnode_step_def sbind_Inr_iff simp del: get_free_vars.simps)
    from times_factors_ok [OF t ty so tf fs]
    have ms: "list_all monomial_factor symbs" and ci: "t = T_REAL \<or> c \<in> \<int>"
      and ev: "c * prod_list (map (eval v) symbs) = prod_list (map (eval v) as)"
      by auto
    have "\<exists>k. (if symbs \<noteq> [] then mgr_Times (sort_key fkey symbs) else Inr (number_int t 1))
               = Inr k \<and> key_ok fkey t k \<and> eval v k = prod_list (map (eval v) symbs)"
    proof (cases "symbs = []")
      case True
      then show ?thesis using key_ok_one by (simp add: number_int_eval)
    next
      case False
      then have "sort_key fkey symbs \<noteq> []"
        by (metis length_sort length_0_conv)
      moreover have "list_all monomial_factor (sort_key fkey symbs)"
        using ms by (simp add: list_all_iff)
      moreover have "sorted (map fkey (sort_key fkey symbs))" by (rule sorted_sort_key)
      ultimately obtain k where "mgr_Times (sort_key fkey symbs) = Inr k" "key_ok fkey t k"
        "\<forall>v. eval v k = prod_list (map (eval v) (sort_key fkey symbs))"
        using mgr_Times_ok by blast
      then show ?thesis using False by (simp add: prod_list_sort_key)
    qed
    then obtain k where
      k: "(if symbs \<noteq> [] then mgr_Times (sort_key fkey symbs) else Inr (number_int t 1))
          = Inr k"
      and kok: "key_ok fkey t k" and kev: "eval v k = prod_list (map (eval v) symbs)"
      by blast
    have r: "pushed = []" "d' = dict_add_prune d k c"
      using st nc NTimes tf k
      by (simp_all add: plus_fnode_step_def del: get_free_vars.simps)
    have ok: "coefs_ok fkey t (dict_add_prune d k c)"
      using d kok ci by (rule coefs_ok_dict_add_prune)
    have dd: "distinct (map fst d)" using d by (simp add: coefs_ok_def)
    show ?thesis
      unfolding r using ok NTimes ev kev
      by (simp add: coefs_value_dict_add_prune [OF dd])
  next
    case (NDiv p q)
    have r: "pushed = []" "d' = dict_add d cur 1"
      using st nc NDiv by (simp_all add: plus_fnode_step_def del: get_free_vars.simps)
    have "coefs_ok fkey t (dict_add d cur 1)"
      using d NDiv by (intro coefs_ok_dict_add) simp_all
    then show ?thesis unfolding r using weight_pos [of cur]
      by (simp add: coefs_value_dict_add)
  qed (use a False in simp_all)
qed

lemma plus_fnode_loop_ok:
  assumes t: "t = T_INT \<or> t = T_REAL"
    and ty: "simp_typed simplify" and so: "simp_sound simplify v"
  shows "list_all (\<lambda>f. arith t f \<and> sop f) stack \<Longrightarrow> coefs_ok fkey t d \<Longrightarrow>
         \<exists>r. plus_fnode_loop simplify fkey t False stack d = Some r
           \<and> (\<forall>d'. r = Inr d' \<longrightarrow> coefs_ok fkey t d'
                \<and> coefs_value v d' = coefs_value v d + sum_list (map (eval v) stack))"
proof (induction "sum_list (map weight stack)" arbitrary: stack d rule: less_induct)
  case less
  show ?case
  proof (cases stack)
    case Nil
    then show ?thesis using less.prems by (simp add: plus_fnode_loop.simps)
  next
    case (Cons cur rest)
    then have c: "arith t cur" "sop cur"
      and r: "list_all (\<lambda>f. arith t f \<and> sop f) rest"
      using less.prems by simp_all
    show ?thesis
    proof (cases "plus_fnode_step simplify fkey t False cur d")
      case (Inl e)
      then have "plus_fnode_loop simplify fkey t False stack d = Some (Inl e)"
        using Cons by (subst plus_fnode_loop.simps) simp
      then show ?thesis by simp
    next
      case (Inr pd)
      obtain pushed d1 where pd: "pd = (pushed, d1)" by (cases pd)
      have st: "plus_fnode_step simplify fkey t False cur d = Inr (pushed, d1)"
        using Inr pd by simp
      from plus_fnode_step_ok [OF t ty so c less.prems(2) st]
      have ok1: "coefs_ok fkey t d1"
        and p: "list_all (\<lambda>f. arith t f \<and> sop f) pushed"
        and w: "sum_list (map weight pushed) < weight cur"
        and ev: "coefs_value v d1 + sum_list (map (eval v) pushed)
                 = coefs_value v d + eval v cur"
        by simp_all
      have m: "sum_list (map weight (pushed @ rest)) < sum_list (map weight stack)"
        using w Cons by simp
      have pr: "list_all (\<lambda>f. arith t f \<and> sop f) (pushed @ rest)" using p r by simp
      from less.hyps [OF m pr ok1] obtain r' where
        l: "plus_fnode_loop simplify fkey t False (pushed @ rest) d1 = Some r'"
        and ok': "\<And>d'. r' = Inr d' \<Longrightarrow> coefs_ok fkey t d'
                    \<and> coefs_value v d'
                      = coefs_value v d1 + sum_list (map (eval v) (pushed @ rest))"
        by blast
      have "plus_fnode_loop simplify fkey t False stack d = Some r'"
        using Cons st l by (subst plus_fnode_loop.simps) simp
      moreover have "coefs_ok fkey t d'
                     \<and> coefs_value v d' = coefs_value v d + sum_list (map (eval v) stack)"
        if "r' = Inr d'" for d'
        using ok' [OF that] ev Cons by simp
      ultimately show ?thesis by blast
    qed
  qed
qed

subsection \<open>pysmt_expr and the round trip\<close>



lemma is_integer_iff: "is_integer q = (q \<in> \<int>)"
  by (auto simp: is_integer_def elim: Ints_cases)









subsection \<open>The simplifier of the examples\<close>

lemma ring_const_arith: "ring_const t f \<Longrightarrow> arith t f"
  by (induction t f rule: ring_const.induct) (auto simp: list_all_iff)

lemma ring_const_eval: "ring_const t f \<Longrightarrow> eval v f = ring_value f"
proof (induction t f rule: ring_const.induct)
  case (3 t as)
  then have "\<And>a. a \<in> set as \<Longrightarrow> eval v a = ring_value a" by (auto simp: list_all_iff)
  then have "map (eval v) as = map ring_value as" by simp
  then show ?case by (simp only: eval.simps ring_value.simps)
next
  case (5 t as)
  then have "\<And>a. a \<in> set as \<Longrightarrow> eval v a = ring_value a" by (auto simp: list_all_iff)
  then have "map (eval v) as = map ring_value as" by simp
  then show ?case by (simp only: eval.simps ring_value.simps)
qed simp_all

lemma sum_list_Ints: "(\<And>x. x \<in> set xs \<Longrightarrow> x \<in> \<int>) \<Longrightarrow> sum_list xs \<in> (\<int> :: rat set)"
  by (induction xs) auto

lemma prod_list_Ints: "(\<And>x. x \<in> set xs \<Longrightarrow> x \<in> \<int>) \<Longrightarrow> prod_list xs \<in> (\<int> :: rat set)"
  by (induction xs) auto

lemma ring_const_int: "ring_const T_INT f \<Longrightarrow> ring_value f \<in> \<int>"
proof (induction T_INT f rule: ring_const.induct)
  case (3 as)
  then show ?case by (auto simp: list_all_iff intro!: sum_list_Ints)
next
  case (5 as)
  then show ?case by (auto simp: list_all_iff intro!: prod_list_Ints)
qed auto

lemma simplify_const_typed: "simp_typed simplify_const"
  unfolding simp_typed_def
proof (intro allI impI)
  fix t f
  assume h: "arith t f \<and> get_free_vars f = {} \<and> is_constant (simplify_const f)"
  then have gt: "get_type f = t" by (simp add: arith_get_type)
  consider "ring_const T_INT f" | "\<not> ring_const T_INT f" "ring_const T_REAL f"
    | "\<not> ring_const T_INT f" "\<not> ring_const T_REAL f" by blast
  then show "get_type (simplify_const f) = t"
  proof cases
    case 1
    then have "get_type f = T_INT" using ring_const_arith arith_get_type by blast
    then show ?thesis using 1 gt by (simp add: simplify_const_def)
  next
    case 2
    then have "get_type f = T_REAL" using ring_const_arith arith_get_type by blast
    then show ?thesis using 2 gt by (simp add: simplify_const_def)
  next
    case 3
    then show ?thesis using gt by (simp add: simplify_const_def)
  qed
qed

lemma simplify_const_sound: "simp_sound simplify_const v"
  unfolding simp_sound_def
proof (intro allI impI)
  fix t f
  assume h: "arith t f \<and> get_free_vars f = {} \<and> is_constant (simplify_const f)"
  consider "ring_const T_INT f" | "\<not> ring_const T_INT f" "ring_const T_REAL f"
    | "\<not> ring_const T_INT f" "\<not> ring_const T_REAL f" by blast
  then show "eval v (simplify_const f) = eval v f"
  proof cases
    case 1
    from ring_const_int [OF 1] have "of_int \<lfloor>ring_value f\<rfloor> = ring_value f"
      by (auto elim: Ints_cases)
    then show ?thesis using 1 ring_const_eval [OF 1, of v] by (simp add: simplify_const_def)
  next
    case 2
    then show ?thesis using ring_const_eval [OF 2(2), of v] by (simp add: simplify_const_def)
  next
    case 3
    then show ?thesis by (simp add: simplify_const_def)
  qed
qed

lemma expr_raises_unless_folded:
  assumes "\<not> is_constant (simplify (NDiv (NInt 1) (NInt 0)))"
  shows "Expr_of_formula simplify fkey T_INT
           (NPlus [NSymbol ''x'' T_INT False, NDiv (NInt 1) (NInt 0)])
         = Some (Inl AssertionError)"
  using assms
  by (simp add: Expr_of_formula_def plus_fnode_def plus_fnode_loop.simps plus_fnode_step_def)





subsection \<open>pysmt_expr, whenever it returns\<close>







subsection \<open>times and the scan of eq2assign\<close>









lemma all_zero_value: "list_all (\<lambda>kv. snd kv = 0) d \<Longrightarrow> coefs_value v d = 0"
  by (induction d) (auto simp: coefs_value_def)

lemma is_zero_value: "is_zero e \<Longrightarrow> coefs_value v (symb2coef e) = 0"
  by (rule all_zero_value) (auto simp: is_zero_def split: if_splits)






subsection \<open>eq2assign\<close>

lemma Expr_of_formula_ok:
  assumes "t = T_INT \<or> t = T_REAL" and "arith t f"
    and "simp_typed simplify" and "simp_sound simplify v"
  shows "\<exists>r. Expr_of_formula simplify fkey t f = Some r
           \<and> (\<forall>e. r = Inr e \<longrightarrow> expr_type e = t \<and> coefs_ok fkey t (symb2coef e)
                  \<and> coefs_value v (symb2coef e) = eval v f)"
proof -
  have gt: "get_type f = t" using assms(2) by (rule arith_get_type)
  have st: "list_all (\<lambda>f. arith t f \<and> sop f) [td f]"
    using td_arith [OF assms(2)] td_sop by simp
  have ok0: "coefs_ok fkey t []" by (simp add: coefs_ok_def)
  from plus_fnode_loop_ok [OF assms(1,3,4) st ok0] obtain r0 where
    l: "plus_fnode_loop simplify fkey t False [td f] [] = Some r0"
    and p: "\<And>d. r0 = Inr d \<Longrightarrow> coefs_ok fkey t d \<and> coefs_value v d = eval v (td f)"
    by auto
  have fl: "(t = T_REAL \<and> get_type f = T_INT) = False" using gt by auto
  have e: "Expr_of_formula simplify fkey t f
           = Some (map_sum id (\<lambda>d. \<lparr> expr_type = t, symb2coef = d \<rparr>) r0)"
    using assms(1) gt l by (auto simp: Expr_of_formula_def plus_fnode_def fl)
  have "expr_type e = t \<and> coefs_ok fkey t (symb2coef e)
        \<and> coefs_value v (symb2coef e) = eval v f"
    if "map_sum id (\<lambda>d. \<lparr> expr_type = t, symb2coef = d \<rparr>) r0 = Inr e" for e
  proof -
    from that obtain d where d: "r0 = Inr d" "e = \<lparr> expr_type = t, symb2coef = d \<rparr>"
      by (cases r0) auto
    from p [OF d(1)] show ?thesis using d(2) td_eval [OF assms(2), of v] by simp
  qed
  then show ?thesis using e by blast
qed






subsection \<open>The sign convention of Ineq\<close>

lemma map_dict_set:
  "map (\<lambda>kv. (fst kv, g (snd kv))) (dict_set d k x)
   = dict_set (map (\<lambda>kv. (fst kv, g (snd kv))) d) k (g x)"
  by (induction d) auto

lemma dict_get_map:
  "dict_get (map (\<lambda>kv. (fst kv, g (snd kv))) d) k = map_option g (dict_get d k)"
  by (induction d) auto

lemma lhs_value_dict_set:
  "lhs_value v (dict_set lhs k e)
   = lhs_value v lhs
     + (coefs_value v (symb2coef e) - coefs_value v (symb2coef (lhs_get t lhs k))) * eval v k"
  unfolding lhs_value_def map_dict_set [where g = "\<lambda>e. coefs_value v (symb2coef e)"]
    coefs_value_dict_set coef_of_def
    dict_get_map [where g = "\<lambda>e. coefs_value v (symb2coef e)"] lhs_get_def
  by (cases "dict_get lhs k") simp_all

lemma expr_ok_empty: "expr_ok fkey t \<lparr> expr_type = t, symb2coef = [] \<rparr>"
  by (simp add: expr_ok_def coefs_ok_def)

lemma lhs_get_ok: "lhs_ok fkey t lhs \<Longrightarrow> expr_ok fkey t (lhs_get t lhs k)"
proof (cases "dict_get lhs k")
  case None
  then show ?thesis by (simp add: lhs_get_def expr_ok_empty)
next
  case (Some e)
  assume "lhs_ok fkey t lhs"
  moreover have "(k, e) \<in> set lhs" using Some by (rule dict_get_mem)
  ultimately show ?thesis using Some by (auto simp: lhs_ok_def lhs_get_def list_all_iff)
qed

lemma lhs_ok_dict_set:
  assumes "lhs_ok fkey t lhs" and "expr_ok fkey t e"
  shows "lhs_ok fkey t (dict_set lhs k e)"
proof -
  have s: "set (dict_set lhs k e) \<subseteq> insert (k, e) (set lhs)" by (rule set_dict_set)
  have "distinct (map fst (dict_set lhs k e))"
    using assms(1) by (auto simp: lhs_ok_def keys_dict_set)
  moreover have "list_all (\<lambda>kv. expr_ok fkey t (snd kv)) (dict_set lhs k e)"
    using assms s by (auto simp: lhs_ok_def list_all_iff)
  ultimately show ?thesis by (simp add: lhs_ok_def)
qed

lemma plus_fnode_ok:
  assumes t: "t = T_INT \<or> t = T_REAL"
    and ty: "simp_typed simplify" and so: "simp_sound simplify v"
    and a: "arith t f" and e: "expr_ok fkey t e"
  shows "\<exists>r. plus_fnode simplify fkey f e = Some r
           \<and> (\<forall>e'. r = Inr e' \<longrightarrow> expr_ok fkey t e'
                  \<and> coefs_value v (symb2coef e') = coefs_value v (symb2coef e) + eval v f)"
proof -
  have gt: "get_type f = t" using a by (rule arith_get_type)
  have et: "expr_type e = t" and ok: "coefs_ok fkey t (symb2coef e)"
    using e by (simp_all add: expr_ok_def)
  have st: "list_all (\<lambda>f. arith t f \<and> sop f) [td f]"
    using td_arith [OF a] td_sop by simp
  from plus_fnode_loop_ok [OF t ty so st ok] obtain r0 where
    l: "plus_fnode_loop simplify fkey t False [td f] (symb2coef e) = Some r0"
    and p: "\<And>d. r0 = Inr d \<Longrightarrow> coefs_ok fkey t d
                \<and> coefs_value v d = coefs_value v (symb2coef e) + eval v (td f)" by auto
  have fl: "(expr_type e = T_REAL \<and> get_type f = T_INT) = False" using gt et by auto
  have pf: "plus_fnode simplify fkey f e
            = Some (map_sum id (\<lambda>d. e\<lparr> symb2coef := d \<rparr>) r0)"
    unfolding plus_fnode_def fl using gt et l by simp
  have "expr_ok fkey t e'
        \<and> coefs_value v (symb2coef e') = coefs_value v (symb2coef e) + eval v f"
    if "map_sum id (\<lambda>d. e\<lparr> symb2coef := d \<rparr>) r0 = Inr e'" for e'
  proof -
    from that obtain d where d: "r0 = Inr d" "e' = e\<lparr> symb2coef := d \<rparr>"
      by (cases r0) auto
    from p [OF d(1)] show ?thesis
      using d(2) et td_eval [OF a, of v] by (simp add: expr_ok_def)
  qed
  then show ?thesis using pf by blast
qed

lemma plus_const_ok:
  assumes "expr_ok fkey t e"
  shows "\<exists>e'. plus_const 1 e = Inr e' \<and> expr_ok fkey t e'
           \<and> (\<forall>v. coefs_value v (symb2coef e') = coefs_value v (symb2coef e) + 1)"
proof -
  have et: "expr_type e = t" and ok: "coefs_ok fkey t (symb2coef e)"
    using assms by (simp_all add: expr_ok_def)
  have "coefs_ok fkey t (dict_add (symb2coef e) (number_int t 1) 1)"
    using ok key_ok_one by (rule coefs_ok_dict_add) simp
  then show ?thesis using et
    by (simp add: plus_const_def is_integer_iff expr_ok_def coefs_value_dict_add
        number_int_eval)
qed

lemma parse_factors_ok:
  assumes "t = T_INT \<or> t = T_REAL"
    and "list_all (\<lambda>f. arith t f \<and> prod_ok f) fs"
    and "list_all monomial_factor symbs0"
    and "list_all (arith t) ps0"
    and "t = T_REAL \<or> c0 \<in> \<int>"
  shows "\<exists>c symbs ps. parse_factors params fs c0 symbs0 ps0 = Inr (c, symbs, ps)
           \<and> list_all monomial_factor symbs \<and> list_all (arith t) ps
           \<and> (t = T_REAL \<or> c \<in> \<int>)
           \<and> (\<forall>v. c * prod_list (map (eval v) symbs) * prod_list (map (eval v) ps)
                  = c0 * prod_list (map (eval v) symbs0) * prod_list (map (eval v) ps0)
                    * prod_list (map (eval v) fs))
           \<and> (symbs = [] \<longrightarrow> symbs0 = [] \<and> (\<forall>f\<in>set fs. get_free_vars f \<subseteq> params))"
  using assms(2-)
proof (induction params fs c0 symbs0 ps0 rule: parse_factors.induct)
  case (1 params const symbs ps)
  then show ?case by simp
next
  case (2 params arg args const symbs ps)
  from "2.prems" have f: "arith t arg" "prod_ok arg"
    and fs: "list_all (\<lambda>f. arith t f \<and> prod_ok f) args" by simp_all
  show ?case
  proof (cases arg)
    case (NSymbol n st x)
    show ?thesis
    proof (cases "arg \<in> params")
      case True
      have p: "list_all (arith t) (ps @ [arg])" using "2.prems"(3) f by simp
      from "2.IH"(1) [OF NSymbol True fs "2.prems"(2) p "2.prems"(4)] True NSymbol
      show ?thesis by (simp add: algebra_simps)
    next
      case False
      have s: "list_all monomial_factor (symbs @ [arg])" using "2.prems"(2) NSymbol by simp
      from "2.IH"(2) [OF NSymbol False fs s "2.prems"(3,4)] False NSymbol
      show ?thesis by (simp add: algebra_simps)
    qed
  next
    case (NInt i)
    have k: "constant_value arg = Inr (of_int i)" using NInt by simp
    have c: "t = T_REAL \<or> const * of_int i \<in> \<int>"
      using "2.prems"(4) by auto
    from "2.IH"(4) [OF NInt _ k fs "2.prems"(2,3) c] NInt
    show ?thesis by (simp add: algebra_simps)
  next
    case (NReal q)
    have k: "constant_value arg = Inr q" using NReal by simp
    have c: "t = T_REAL \<or> const * q \<in> \<int>"
      using f NReal by simp
    from "2.IH"(5) [OF NReal _ k fs "2.prems"(2,3) c] NReal
    show ?thesis by (simp add: algebra_simps)
  next
    case (NTimes as)
    have a: "list_all (\<lambda>f. arith t f \<and> prod_ok f) (args @ as)"
      using f fs NTimes by (auto simp: list_all_iff)
    from "2.IH"(15) [OF NTimes a "2.prems"(2,3,4)] NTimes
    show ?thesis by (auto simp: algebra_simps; blast)
  next
    case (NDiv a b)
    have s: "list_all monomial_factor (symbs @ [arg])" using "2.prems"(2) NDiv by simp
    from "2.IH"(16) [OF NDiv fs s "2.prems"(3,4)] NDiv
    show ?thesis by (simp add: algebra_simps del: get_free_vars.simps eval.simps) blast
  qed (use f in simp_all)
qed

lemma number_arith:
  assumes "t = T_INT \<or> t = T_REAL" and "t = T_REAL \<or> c \<in> \<int>"
  shows "\<exists>n. number t c = Inr n \<and> arith t n \<and> (\<forall>v. eval v n = c)"
  using assms by (auto simp: number_def is_integer_iff elim: Ints_cases)

lemma mgr_Times_arith:
  assumes "xs \<noteq> []" and "list_all (arith t) xs"
  shows "\<exists>k. mgr_Times xs = Inr k \<and> arith t k
           \<and> (\<forall>v. eval v k = prod_list (map (eval v) xs))"
proof (cases xs)
  case Nil
  then show ?thesis using assms by simp
next
  case (Cons x xs')
  then show ?thesis using assms by (cases xs') simp_all
qed

lemma parse_step_ok:
  assumes t: "t = T_INT \<or> t = T_REAL"
    and ty: "simp_typed simplify" and so: "simp_sound simplify v"
    and a: "arith t cur" and s: "sop cur"
    and l: "lhs_ok fkey t lhs" and r: "expr_ok fkey t rhs"
  shows "\<exists>res. parse_step simplify fkey t params cur lhs rhs = Some res
           \<and> (\<forall>pushed lhs' rhs'. res = Inr (pushed, lhs', rhs') \<longrightarrow>
                 lhs_ok fkey t lhs' \<and> expr_ok fkey t rhs'
                 \<and> list_all (\<lambda>f. arith t f \<and> sop f) pushed
                 \<and> sum_list (map weight pushed) < weight cur
                 \<and> lhs_value v lhs' + coefs_value v (symb2coef rhs')
                     + sum_list (map (eval v) pushed)
                   = lhs_value v lhs + coefs_value v (symb2coef rhs) + eval v cur)"
proof (cases "get_free_vars cur \<subseteq> params")
  case True
  from plus_fnode_ok [OF t ty so a r] obtain r0 where
    p: "plus_fnode simplify fkey cur rhs = Some r0"
    and ok: "\<And>rhs'. r0 = Inr rhs' \<Longrightarrow> expr_ok fkey t rhs'
               \<and> coefs_value v (symb2coef rhs') = coefs_value v (symb2coef rhs) + eval v cur"
    by blast
  show ?thesis
  proof (cases r0)
    case (Inl e)
    then have "parse_step simplify fkey t params cur lhs rhs = Some (Inl e)"
      using True p by (simp add: parse_step_def)
    then show ?thesis by simp
  next
    case (Inr rhs')
    then have "parse_step simplify fkey t params cur lhs rhs = Some (Inr ([], lhs, rhs'))"
      using True p by (simp add: parse_step_def)
    then show ?thesis using l ok [OF Inr] weight_pos [of cur] by simp
  qed
next
  case False
  have single: ?thesis
    if st: "parse_step simplify fkey t params cur lhs rhs
            = rbind (Some (plus_const 1 (lhs_get t lhs cur)))
                (\<lambda>e. Some (Inr ([], dict_set lhs cur e, rhs)))"
  proof -
    from plus_const_ok [OF lhs_get_ok [OF l]] obtain e where
      e: "plus_const 1 (lhs_get t lhs cur) = Inr e" and ok: "expr_ok fkey t e"
      and ev: "\<And>v. coefs_value v (symb2coef e)
                   = coefs_value v (symb2coef (lhs_get t lhs cur)) + 1"
      by blast
    have "parse_step simplify fkey t params cur lhs rhs
          = Some (Inr ([], dict_set lhs cur e, rhs))"
      using st e by simp
    moreover have "lhs_ok fkey t (dict_set lhs cur e)" using l ok by (rule lhs_ok_dict_set)
    moreover have "lhs_value v (dict_set lhs cur e) = lhs_value v lhs + eval v cur"
      by (simp add: lhs_value_dict_set [where t = t] ev)
    ultimately show ?thesis using r weight_pos [of cur] by simp
  qed
  show ?thesis
  proof (cases cur)
    case (NSymbol n st x)
    show ?thesis
      by (rule single) (use False NSymbol in \<open>simp add: parse_step_def\<close>)
  next
    case (NDiv p q)
    show ?thesis
      by (rule single)
        (use False NDiv in \<open>simp add: parse_step_def del: get_free_vars.simps\<close>)
  next
    case (NPlus as)
    have "parse_step simplify fkey t params cur lhs rhs = Some (Inr (rev as, lhs, rhs))"
      using False NPlus by (simp add: parse_step_def del: get_free_vars.simps)
    moreover have "list_all (\<lambda>f. arith t f \<and> sop f) (rev as)"
      using a s NPlus by (simp add: list_all_iff)
    moreover have "sum_list (map weight (rev as)) < weight cur"
      using NPlus by (simp add: rev_map [symmetric])
    moreover have "sum_list (map (eval v) (rev as)) = eval v cur"
      using NPlus by (simp add: rev_map [symmetric])
    ultimately show ?thesis using l r by simp
  next
    case (NMinus p q)
    let ?n = "td (NTimes [number_int t (- 1), q])"
    have st: "parse_step simplify fkey t params cur lhs rhs
              = Some (Inr ([?n, p], lhs, rhs))"
      using False NMinus
      by (simp add: parse_step_def Let_def del: get_free_vars.simps td.simps)
    have an: "arith t (NTimes [number_int t (- 1), q])"
      using a NMinus number_int_arith [OF t] by simp
    have "arith t ?n" using an by (rule td_arith)
    moreover have "sop ?n" by (rule td_sop)
    moreover have "weight ?n = weight q"
    proof -
      have "sop q" using s NMinus by simp
      then show ?thesis by (rule td_neg_weight)
    qed
    moreover have "eval v ?n = - eval v q"
      using td_eval [OF an, of v] by (simp add: number_int_eval)
    ultimately show ?thesis
      unfolding st using a s l r NMinus by simp
  next
    case (NTimes as)
    have fs: "list_all (\<lambda>f. arith t f \<and> prod_ok f) as"
      using a s NTimes by (simp add: list_all_iff)
    from parse_factors_ok [OF t fs, of "[]" "[]" 1 params] obtain c symbs ps where
      pf: "parse_factors params as 1 [] [] = Inr (c, symbs, ps)"
      and ms: "list_all monomial_factor symbs" and ap: "list_all (arith t) ps"
      and ci: "t = T_REAL \<or> c \<in> \<int>"
      and ev: "\<And>v. c * prod_list (map (eval v) symbs) * prod_list (map (eval v) ps)
                   = prod_list (map (eval v) as)"
      and ne: "symbs = [] \<longrightarrow> (\<forall>f\<in>set as. get_free_vars f \<subseteq> params)"
      by auto
    have sne: "symbs \<noteq> []" using ne False NTimes by auto
    then have "sort_key fkey symbs \<noteq> []"
      by (metis length_sort length_0_conv)
    moreover have "list_all monomial_factor (sort_key fkey symbs)"
      using ms by (simp add: list_all_iff)
    moreover have "sorted (map fkey (sort_key fkey symbs))" by (rule sorted_sort_key)
    ultimately obtain k where k: "mgr_Times (sort_key fkey symbs) = Inr k"
      and kev: "\<And>v. eval v k = prod_list (map (eval v) symbs)"
      using mgr_Times_ok [of "sort_key fkey symbs" fkey t]
      by (auto simp: prod_list_sort_key)
    from number_arith [OF t ci] obtain n where
      n: "number t c = Inr n" "arith t n" "\<And>v. eval v n = c" by blast
    have "list_all (arith t) (n # ps)" using n(2) ap by simp
    from mgr_Times_arith [OF _ this] obtain coeff where
      co: "mgr_Times (n # ps) = Inr coeff" "arith t coeff"
      "\<And>v. eval v coeff = prod_list (map (eval v) (n # ps))" by auto
    from plus_fnode_ok [OF t ty so co(2) lhs_get_ok [OF l]] obtain r0 where
      e: "plus_fnode simplify fkey coeff (lhs_get t lhs k) = Some r0"
      and ok: "\<And>e. r0 = Inr e \<Longrightarrow> expr_ok fkey t e
                 \<and> coefs_value v (symb2coef e)
                   = coefs_value v (symb2coef (lhs_get t lhs k)) + eval v coeff"
      by blast
    show ?thesis
    proof (cases r0)
      case (Inl err)
      then have "parse_step simplify fkey t params cur lhs rhs = Some (Inl err)"
        using False NTimes pf k n(1) co(1) e
        by (simp add: parse_step_def del: get_free_vars.simps)
      then show ?thesis by simp
    next
      case (Inr e')
      then have st: "parse_step simplify fkey t params cur lhs rhs
                     = Some (Inr ([], dict_set lhs k e', rhs))"
        using False NTimes pf k n(1) co(1) e
        by (simp add: parse_step_def del: get_free_vars.simps)
      from ok [OF Inr] have eok: "expr_ok fkey t e'"
        and eev: "coefs_value v (symb2coef e')
                  = coefs_value v (symb2coef (lhs_get t lhs k)) + eval v coeff"
        by simp_all
      have lok: "lhs_ok fkey t (dict_set lhs k e')" using l eok by (rule lhs_ok_dict_set)
      have "lhs_value v (dict_set lhs k e') = lhs_value v lhs + eval v cur"
        using ev [of v] NTimes
        by (simp add: lhs_value_dict_set [where t = t] eev co(3) n(3) kev algebra_simps)
      then show ?thesis unfolding st using lok r weight_pos [of cur] by simp
    qed
  qed (use a False in simp_all)
qed

lemma parse_loop_ok:
  assumes t: "t = T_INT \<or> t = T_REAL"
    and ty: "simp_typed simplify" and so: "simp_sound simplify v"
  shows "list_all (\<lambda>f. arith t f \<and> sop f) stack \<Longrightarrow> lhs_ok fkey t lhs \<Longrightarrow>
         expr_ok fkey t rhs \<Longrightarrow>
         \<exists>res. parse_loop simplify fkey t params stack lhs rhs = Some res
           \<and> (\<forall>lhs' rhs'. res = Inr (lhs', rhs') \<longrightarrow>
                 lhs_ok fkey t lhs' \<and> expr_ok fkey t rhs'
                 \<and> lhs_value v lhs' + coefs_value v (symb2coef rhs')
                   = lhs_value v lhs + coefs_value v (symb2coef rhs)
                     + sum_list (map (eval v) stack))"
proof (induction "sum_list (map weight stack)" arbitrary: stack lhs rhs rule: less_induct)
  case less
  show ?case
  proof (cases stack)
    case Nil
    then show ?thesis using less.prems by (simp add: parse_loop.simps)
  next
    case (Cons cur rest)
    then have c: "arith t cur" "sop cur"
      and r: "list_all (\<lambda>f. arith t f \<and> sop f) rest"
      using less.prems by simp_all
    from parse_step_ok [OF t ty so c less.prems(2,3)] obtain sres where
      st: "parse_step simplify fkey t params cur lhs rhs = Some sres"
      and sp: "\<And>pushed lhs1 rhs1. sres = Inr (pushed, lhs1, rhs1) \<Longrightarrow>
                 lhs_ok fkey t lhs1 \<and> expr_ok fkey t rhs1
                 \<and> list_all (\<lambda>f. arith t f \<and> sop f) pushed
                 \<and> sum_list (map weight pushed) < weight cur
                 \<and> lhs_value v lhs1 + coefs_value v (symb2coef rhs1)
                     + sum_list (map (eval v) pushed)
                   = lhs_value v lhs + coefs_value v (symb2coef rhs) + eval v cur"
      by blast
    show ?thesis
    proof (cases sres)
      case (Inl e)
      then have "parse_loop simplify fkey t params stack lhs rhs = Some (Inl e)"
        using Cons st by (subst parse_loop.simps) simp
      then show ?thesis by simp
    next
      case (Inr x)
      obtain pushed lhs1 rhs1 where x: "x = (pushed, lhs1, rhs1)" by (cases x)
      have sr: "sres = Inr (pushed, lhs1, rhs1)" using Inr x by simp
      from sp [OF sr]
      have ok1: "lhs_ok fkey t lhs1" "expr_ok fkey t rhs1"
        and p: "list_all (\<lambda>f. arith t f \<and> sop f) pushed"
        and w: "sum_list (map weight pushed) < weight cur"
        and ev: "lhs_value v lhs1 + coefs_value v (symb2coef rhs1)
                   + sum_list (map (eval v) pushed)
                 = lhs_value v lhs + coefs_value v (symb2coef rhs) + eval v cur"
        by simp_all
      have m: "sum_list (map weight (pushed @ rest)) < sum_list (map weight stack)"
        using w Cons by simp
      have pr: "list_all (\<lambda>f. arith t f \<and> sop f) (pushed @ rest)" using p r by simp
      from less.hyps [OF m pr ok1] obtain res where
        lp: "parse_loop simplify fkey t params (pushed @ rest) lhs1 rhs1 = Some res"
        and ok': "\<And>lhs' rhs'. res = Inr (lhs', rhs') \<Longrightarrow>
                    lhs_ok fkey t lhs' \<and> expr_ok fkey t rhs'
                    \<and> lhs_value v lhs' + coefs_value v (symb2coef rhs')
                      = lhs_value v lhs1 + coefs_value v (symb2coef rhs1)
                        + sum_list (map (eval v) (pushed @ rest))"
        by blast
      have "parse_loop simplify fkey t params stack lhs rhs = Some res"
        using Cons st sr lp by (subst parse_loop.simps) simp
      moreover have "lhs_ok fkey t lhs' \<and> expr_ok fkey t rhs'
                     \<and> lhs_value v lhs' + coefs_value v (symb2coef rhs')
                       = lhs_value v lhs + coefs_value v (symb2coef rhs)
                         + sum_list (map (eval v) stack)"
        if "res = Inr (lhs', rhs')" for lhs' rhs'
        using ok' [OF that] ev Cons by simp
      ultimately show ?thesis by blast
    qed
  qed
qed

lemma times_key_one:
  assumes "key_ok fkey t k"
  shows "times_key fkey k (number_int t 1) = Inr k"
proof (cases k)
  case (NTimes as)
  then have "sort_key fkey as = as" and "2 \<le> length as"
    using assms by (simp_all add: sort_key_id_if_sorted)
  moreover from this(2) obtain x y zs where "as = x # y # zs"
    by (cases as; cases "tl as") auto
  ultimately show ?thesis using NTimes
    by (simp add: times_key_def number_int_def)
qed (use assms in \<open>auto simp: times_key_def number_int_def split: if_splits\<close>)

lemma dict_add_fresh: "k \<notin> fst ` set d \<Longrightarrow> dict_add d k c = d @ [(k, c)]"
proof -
  assume k: "k \<notin> fst ` set d"
  then have "dict_set d k x = d @ [(k, x)]" for x :: rat
    by (induction d) auto
  moreover have "dict_get d k = None" using k by (simp add: dict_get_None)
  ultimately show ?thesis by (simp add: dict_add_def)
qed

lemma coefs_ok_butlast: "coefs_ok fkey t (d @ [kv]) \<Longrightarrow> coefs_ok fkey t d"
  by (auto simp: coefs_ok_def)

lemma times_cross_const:
  "coefs_ok fkey t d \<Longrightarrow>
   times_cross fkey d [(number_int t 1, q)] = Inr (map (\<lambda>kv. (fst kv, snd kv * q)) d)"
proof (induction d rule: rev_induct)
  case Nil
  then show ?case by (simp add: times_cross_def)
next
  case (snoc kv d)
  have ih: "times_cross fkey d [(number_int t 1, q)] = Inr (map (\<lambda>kv. (fst kv, snd kv * q)) d)"
    using snoc.IH snoc.prems coefs_ok_butlast by blast
  have k: "key_ok fkey t (fst kv)" using snoc.prems by (simp add: coefs_ok_def)
  have fr: "fst kv \<notin> fst ` set (map (\<lambda>kv. (fst kv, snd kv * q)) d)"
    using snoc.prems by (force simp: coefs_ok_def)
  show ?case
    using ih times_key_one [OF k] dict_add_fresh [OF fr]
    by (simp add: times_cross_def)
qed

lemma times_m_one:
  assumes t: "t = T_INT \<or> t = T_REAL" and e: "expr_ok fkey t e"
  shows "times fkey e [\<lparr> expr_type = t, symb2coef = [(number_int t 1, - 1)] \<rparr>]
         = Inr (if is_zero e then e else e\<lparr> symb2coef := neg_coefs_map (symb2coef e) \<rparr>)"
proof (cases "is_zero e")
  case True
  then show ?thesis by (simp add: times_def)
next
  case False
  let ?o = "\<lparr> expr_type = t, symb2coef = [(number_int t 1, - 1)] \<rparr>"
  have et: "expr_type e = t" and ok: "coefs_ok fkey t (symb2coef e)"
    using e by (simp_all add: expr_ok_def)
  have z: "\<not> is_zero ?o" by (simp add: is_zero_def)
  have o: "\<not> is_one ?o" by (simp add: is_one_def)
  have g: "\<not> (expr_type ?o = T_INT \<and> expr_type e = T_REAL)" using et by auto
  show ?thesis
    using False et z o g times_cross_const [OF ok, of "- 1"]
    by (auto simp: times_def neg_coefs_map_def)
qed

lemma Expr_of_formula_m_one:
  assumes t: "t = T_INT \<or> t = T_REAL"
    and ty: "simp_typed simplify" and so: "simp_sound simplify v"
    and r: "Expr_of_formula simplify fkey t (number_int t (- 1)) = Some (Inr ex)"
  shows "ex = \<lparr> expr_type = t, symb2coef = [(number_int t 1, - 1)] \<rparr>"
proof -
  let ?m = "number_int t (- 1)"
  have a: "arith t ?m" using t by (auto simp: number_int_def)
  have cl: "get_free_vars ?m = {}" by (simp add: number_int_def)
  have td: "td ?m = ?m" by (simp add: number_int_def)
  have gt: "get_type ?m = t" using t by (auto simp: number_int_def)
  have fl: "(t = T_REAL \<and> get_type ?m = T_INT) = False" using gt by auto
  have pf: "Expr_of_formula simplify fkey t ?m
            = map_option (map_sum id (\<lambda>d. \<lparr> expr_type = t, symb2coef = d \<rparr>))
                (plus_fnode_loop simplify fkey t False [?m] [])"
    using t gt by (auto simp: Expr_of_formula_def plus_fnode_def fl td)
  obtain d where
    l: "plus_fnode_loop simplify fkey t False [?m] [] = Some (Inr d)"
    and ex: "ex = \<lparr> expr_type = t, symb2coef = d \<rparr>"
  proof (cases "plus_fnode_loop simplify fkey t False [?m] []")
    case None
    then show ?thesis using r pf by simp
  next
    case (Some x)
    then show ?thesis using r pf that by (cases x) auto
  qed
  from l obtain pushed d1 where
    st: "plus_fnode_step simplify fkey t False ?m [] = Inr (pushed, d1)"
    and l1: "plus_fnode_loop simplify fkey t False (pushed @ []) d1 = Some (Inr d)"
    by (subst (asm) plus_fnode_loop.simps) (auto split: sum.splits)
  from st cl obtain c where c: "constant_value (simplify ?m) = Inr c"
    and pd: "pushed = []" "d1 = dict_add_prune [] (number_int t 1) c"
    by (auto simp: plus_fnode_step_def sbind_Inr_iff split: if_splits)
  from simp_value [OF t ty so a cl c] have "c = - 1" by (simp add: number_int_eval)
  then have "d1 = [(number_int t 1, - 1)]"
    using pd(2) by (simp add: dict_add_prune_def dict_add_def)
  moreover have "d = d1" using l1 pd(1) by (simp add: plus_fnode_loop.simps)
  ultimately show ?thesis using ex by simp
qed

lemma Expr_of_const_m_one:
  assumes "t = T_INT \<or> t = T_REAL"
  shows "Expr_of_const t (- 1) = Inr \<lparr> expr_type = t, symb2coef = [(number_int t 1, - 1)] \<rparr>"
  using assms
  by (auto simp: Expr_of_const_def plus_const_def dict_add_def is_integer_def)

lemma coefs_value_neg: "coefs_value v (neg_coefs_map d) = - coefs_value v d"
  by (induction d) (simp_all add: neg_coefs_map_def coefs_value_def)

lemma coefs_ok_neg: "coefs_ok fkey t d \<Longrightarrow> coefs_ok fkey t (neg_coefs_map d)"
  by (auto simp: coefs_ok_def neg_coefs_map_def list_all_iff comp_def)

lemma count_neg_map:
  "length (filter (\<lambda>val. val \<noteq> 0 \<and> val < 0) (map snd (neg_coefs_map d)))
   + length (filter (\<lambda>val. val \<noteq> 0 \<and> val < 0) (map snd d))
   = length (filter (\<lambda>val. val \<noteq> 0) (map snd d))"
  by (induction d) (auto simp: neg_coefs_map_def)

lemma count_tot_map:
  "length (filter (\<lambda>val. val \<noteq> 0) (map snd (neg_coefs_map d)))
   = length (filter (\<lambda>val. val \<noteq> 0) (map snd d))"
  by (induction d) (auto simp: neg_coefs_map_def)

lemma count_zero:
  "list_all (\<lambda>kv. snd kv = 0) d \<Longrightarrow>
   length (filter (\<lambda>val. val \<noteq> 0 \<and> val < 0) (map snd d)) = 0
   \<and> length (filter (\<lambda>val. val \<noteq> 0) (map snd d)) = 0"
  by (induction d) auto

lemma neg_expr_props:
  assumes "expr_ok fkey t e"
  shows "expr_ok fkey t (neg_expr e)"
    and "coefs_value v (symb2coef (neg_expr e)) = - coefs_value v (symb2coef e)"
    and "length (filter (\<lambda>val. val \<noteq> 0 \<and> val < 0) (map snd (symb2coef (neg_expr e))))
         + length (filter (\<lambda>val. val \<noteq> 0 \<and> val < 0) (map snd (symb2coef e)))
         = length (filter (\<lambda>val. val \<noteq> 0) (map snd (symb2coef e)))"
    and "length (filter (\<lambda>val. val \<noteq> 0) (map snd (symb2coef (neg_expr e))))
         = length (filter (\<lambda>val. val \<noteq> 0) (map snd (symb2coef e)))"
proof -
  show "expr_ok fkey t (neg_expr e)"
    using assms by (simp add: neg_expr_def expr_ok_def coefs_ok_neg)
  show "coefs_value v (symb2coef (neg_expr e)) = - coefs_value v (symb2coef e)"
    using is_zero_value [of e v] by (simp add: neg_expr_def coefs_value_neg)
  have z: "list_all (\<lambda>kv. snd kv = 0) (symb2coef e)" if "is_zero e"
    using that by (auto simp: is_zero_def split: if_splits)
  show "length (filter (\<lambda>val. val \<noteq> 0 \<and> val < 0) (map snd (symb2coef (neg_expr e))))
         + length (filter (\<lambda>val. val \<noteq> 0 \<and> val < 0) (map snd (symb2coef e)))
         = length (filter (\<lambda>val. val \<noteq> 0) (map snd (symb2coef e)))"
    using count_zero [OF z] count_neg_map [of "symb2coef e"] by (simp add: neg_expr_def)
  show "length (filter (\<lambda>val. val \<noteq> 0) (map snd (symb2coef (neg_expr e))))
         = length (filter (\<lambda>val. val \<noteq> 0) (map snd (symb2coef e)))"
    using count_tot_map [of "symb2coef e"] by (simp add: neg_expr_def)
qed

lemma times_fnode_m_one:
  assumes t: "t = T_INT \<or> t = T_REAL"
    and ty: "simp_typed simplify" and so: "simp_sound simplify v"
    and e: "expr_ok fkey t e"
  shows "\<exists>r. times_fnode simplify fkey (number_int (expr_type e) (- 1)) e = Some r
           \<and> (\<forall>e'. r = Inr e' \<longrightarrow> e' = neg_expr e)"
proof -
  let ?m = "number_int t (- 1)"
  have et: "expr_type e = t" using e by (simp add: expr_ok_def)
  have gt: "get_type ?m = t" using t by (auto simp: number_int_def)
  have no: "\<not> is_one_fnode ?m" by (simp add: number_int_def)
  have a: "arith t ?m" using t by (auto simp: number_int_def)
  from Expr_of_formula_ok [OF t a ty so] obtain r0 where
    r0: "Expr_of_formula simplify fkey t ?m = Some r0" by blast
  show ?thesis
  proof (cases r0)
    case (Inl err)
    then have "times_fnode simplify fkey ?m e = Some (Inl err)"
      using r0 et gt no by (simp add: times_fnode_def)
    then show ?thesis using et by simp
  next
    case (Inr ex)
    from Expr_of_formula_m_one [OF t ty so r0 [unfolded Inr]]
    have ex: "ex = \<lparr> expr_type = t, symb2coef = [(number_int t 1, - 1)] \<rparr>" .
    have "times_fnode simplify fkey ?m e = Some (Inr (neg_expr e))"
      using r0 Inr et gt no times_m_one [OF t e] ex
      by (simp add: times_fnode_def neg_expr_def)
    then show ?thesis using et by simp
  qed
qed

lemma lhs_value_Cons [simp]:
  "lhs_value v (kv # lhs) = coefs_value v (symb2coef (snd kv)) * eval v (fst kv) + lhs_value v lhs"
  by (simp add: lhs_value_def)

lemma lhs_value_Nil [simp]: "lhs_value v [] = 0"
  by (simp add: lhs_value_def)

lemma flip_lhs_ok:
  assumes t: "t = T_INT \<or> t = T_REAL"
    and ty: "simp_typed simplify" and so: "simp_sound simplify v"
  shows "lhs_ok fkey t lhs \<Longrightarrow>
         \<exists>r. flip_lhs simplify fkey lhs = Some r
           \<and> (\<forall>lhs'. r = Inr lhs' \<longrightarrow> lhs_ok fkey t lhs'
                  \<and> map fst lhs' = map fst lhs
                  \<and> lhs_value v lhs' = - lhs_value v lhs
                  \<and> neg_coefs lhs' + neg_coefs lhs = tot_coefs lhs
                  \<and> tot_coefs lhs' = tot_coefs lhs)"
proof (induction lhs)
  case Nil
  then show ?case by (simp add: lhs_ok_def neg_coefs_def tot_coefs_def lhs_coefs_def)
next
  case (Cons kv lhs)
  have e: "expr_ok fkey t (snd kv)" and l: "lhs_ok fkey t lhs" and nk: "fst kv \<notin> fst ` set lhs"
    using Cons.prems by (auto simp: lhs_ok_def)
  from times_fnode_m_one [OF t ty so e] obtain r1 where
    tf: "times_fnode simplify fkey (number_int (expr_type (snd kv)) (- 1)) (snd kv) = Some r1"
    and p1: "\<And>e'. r1 = Inr e' \<Longrightarrow> e' = neg_expr (snd kv)" by blast
  from Cons.IH [OF l] obtain r2 where
    f: "flip_lhs simplify fkey lhs = Some r2"
    and p2: "\<And>lhs'. r2 = Inr lhs' \<Longrightarrow> lhs_ok fkey t lhs'
               \<and> map fst lhs' = map fst lhs
               \<and> lhs_value v lhs' = - lhs_value v lhs
               \<and> neg_coefs lhs' + neg_coefs lhs = tot_coefs lhs
               \<and> tot_coefs lhs' = tot_coefs lhs" by blast
  show ?case
  proof (cases r1)
    case (Inl err)
    then have "flip_lhs simplify fkey (kv # lhs) = Some (Inl err)" using tf by simp
    then show ?thesis by simp
  next
    case r1: (Inr e')
    then have e': "e' = neg_expr (snd kv)" by (rule p1)
    show ?thesis
    proof (cases r2)
      case (Inl err)
      then have "flip_lhs simplify fkey (kv # lhs) = Some (Inl err)" using tf r1 f by simp
      then show ?thesis by simp
    next
      case (Inr lhs')
      from p2 [OF Inr] have ok: "lhs_ok fkey t lhs'"
        and ks: "map fst lhs' = map fst lhs"
        and ev: "lhs_value v lhs' = - lhs_value v lhs"
        and neg: "neg_coefs lhs' + neg_coefs lhs = tot_coefs lhs"
        and tot: "tot_coefs lhs' = tot_coefs lhs" by simp_all
      let ?e = "neg_expr (snd kv)"
      have st: "flip_lhs simplify fkey (kv # lhs) = Some (Inr ((fst kv, ?e) # lhs'))"
        using tf r1 e' f Inr by simp
      have nk': "fst kv \<notin> fst ` set lhs'"
      proof -
        have "fst ` set lhs' = set (map fst lhs')" by simp
        then show ?thesis using ks nk by simp
      qed
      have "lhs_ok fkey t ((fst kv, ?e) # lhs')"
        using ok nk' neg_expr_props(1) [OF e] by (simp add: lhs_ok_def)
      moreover have "lhs_value v ((fst kv, ?e) # lhs') = - lhs_value v (kv # lhs)"
        using ev neg_expr_props(2) [OF e, of v] by simp
      moreover have "neg_coefs ((fst kv, ?e) # lhs') + neg_coefs (kv # lhs)
                     = tot_coefs (kv # lhs)"
        using neg neg_expr_props(3) [OF e]
        by (simp add: neg_coefs_def tot_coefs_def lhs_coefs_def)
      moreover have "tot_coefs ((fst kv, ?e) # lhs') = tot_coefs (kv # lhs)"
        using tot neg_expr_props(4) [OF e]
        by (simp add: tot_coefs_def lhs_coefs_def)
      ultimately show ?thesis unfolding st using ks by simp
    qed
  qed
qed

text \<open>
  Claim C6. For every equality \<open>a = b\<close> between arithmetic terms of one numeric type,
  \<open>Ineq\<close> ends (with an exception or a pair). Whenever it returns a pair \<open>(lhs, rhs)\<close>,
  the un-flipped form is a pair as well, and both hold exactly when \<open>a = b\<close> holds, under
  every valuation under which the simplifier keeps the value of the closed terms it turns
  into constants. If more than half of the nonzero coefficients of the left-hand side of
  the un-flipped form are negative, both sides of the pair returned are the negation of
  the sides of the un-flipped form, and the pair returned has at most as many negative
  coefficients as the un-flipped form; otherwise the pair returned is the un-flipped
  form. In both cases at most half of the nonzero coefficients of the pair returned are
  negative.
\<close>

theorem parse_sign_flip:
  assumes "t = T_INT \<or> t = T_REAL" and "arith t a" and "arith t b"
    and "simp_typed simplify" and "simp_sound simplify v"
  shows "\<exists>u r.
           parse_unflipped simplify fkey params a b = Some u
           \<and> Ineq_parse simplify fkey params (NEquals a b) = Some r
           \<and> (\<forall>lhs rhs. r = Inr (lhs, rhs) \<longrightarrow>
                (\<exists>lhs0 rhs0. u = Inr (lhs0, rhs0)
                   \<and> ((lhs_value v lhs0 = coefs_value v (symb2coef rhs0))
                      = (eval v a = eval v b))
                   \<and> ((lhs_value v lhs = coefs_value v (symb2coef rhs))
                      = (eval v a = eval v b))
                   \<and> (if (of_nat (tot_coefs lhs0) :: rat) / 2 < of_nat (neg_coefs lhs0)
                       then lhs_value v lhs = - lhs_value v lhs0
                            \<and> coefs_value v (symb2coef rhs) = - coefs_value v (symb2coef rhs0)
                            \<and> neg_coefs lhs \<le> neg_coefs lhs0
                       else lhs = lhs0 \<and> rhs = rhs0)
                   \<and> 2 * neg_coefs lhs \<le> tot_coefs lhs))"
proof -
  let ?m = "NTimes [number_int t (- 1), b]"
  let ?e0 = "\<lparr> expr_type = t, symb2coef = [] \<rparr>"
  let ?mo = "\<lparr> expr_type = t, symb2coef = [(number_int t 1, - 1)] \<rparr>"
  have gt: "get_type a = t" using assms(2) by (rule arith_get_type)
  have am: "arith t ?m" using assms(3) number_int_arith [OF assms(1)] by simp
  have st: "list_all (\<lambda>f. arith t f \<and> sop f) [td ?m, td a]"
    using td_arith [OF am] td_arith [OF assms(2)] td_sop [of ?m] td_sop [of a]
    by (simp del: td.simps)
  have l0: "lhs_ok fkey t []" by (simp add: lhs_ok_def)
  from parse_loop_ok [OF assms(1,4,5) st l0 expr_ok_empty, of params] obtain res where
    lp: "parse_loop simplify fkey t params [td ?m, td a] [] ?e0 = Some res"
    and lpp: "\<And>lhs0 r0. res = Inr (lhs0, r0) \<Longrightarrow>
                lhs_ok fkey t lhs0 \<and> expr_ok fkey t r0
                \<and> lhs_value v lhs0 + coefs_value v (symb2coef r0)
                  = lhs_value v [] + coefs_value v (symb2coef ?e0)
                    + sum_list (map (eval v) [td ?m, td a])"
    by blast
  show ?thesis
  proof (cases res)
    case (Inl err)
    have "parse_unflipped simplify fkey params a b = Some (Inl err)"
      using gt lp Inl by (simp add: parse_unflipped_def)
    moreover have "Ineq_parse simplify fkey params (NEquals a b) = Some (Inl err)"
      using gt assms(1) lp Inl Expr_of_const_m_one [OF assms(1)]
      by (auto simp: Ineq_parse_def)
    ultimately show ?thesis by simp
  next
    case (Inr x)
    obtain lhs0 r0 where x: "x = (lhs0, r0)" by (cases x)
    have res: "res = Inr (lhs0, r0)" using Inr x by simp
    from lpp [OF res] have lok: "lhs_ok fkey t lhs0" and rok: "expr_ok fkey t r0"
      and ev0: "lhs_value v lhs0 + coefs_value v (symb2coef r0)
                = lhs_value v [] + coefs_value v (symb2coef ?e0)
                  + sum_list (map (eval v) [td ?m, td a])"
      by simp_all
    have ev: "lhs_value v lhs0 + coefs_value v (symb2coef r0) = eval v a - eval v b"
      using ev0 td_eval [OF am, of v] td_eval [OF assms(2), of v]
      by (simp add: number_int_eval del: td.simps)
    have tm: "times fkey r0 [?mo] = Inr (neg_expr r0)"
      using times_m_one [OF assms(1) rok] by (simp add: neg_expr_def)
    have nv: "coefs_value v (symb2coef (neg_expr r0)) = - coefs_value v (symb2coef r0)"
      by (rule neg_expr_props(2) [OF rok])
    have un: "parse_unflipped simplify fkey params a b = Some (Inr (lhs0, neg_expr r0))"
      using gt lp res tm by (simp add: parse_unflipped_def)
    have eq0: "(lhs_value v lhs0 = coefs_value v (symb2coef (neg_expr r0)))
               = (eval v a = eval v b)"
      using ev nv by auto
    show ?thesis
    proof (cases "(of_nat (tot_coefs lhs0) :: rat) / 2 < of_nat (neg_coefs lhs0)")
      case True
      from flip_lhs_ok [OF assms(1,4,5) lok] obtain fr where
        f: "flip_lhs simplify fkey lhs0 = Some fr"
        and fp: "\<And>lhs'. fr = Inr lhs' \<Longrightarrow>
                   lhs_value v lhs' = - lhs_value v lhs0
                   \<and> neg_coefs lhs' + neg_coefs lhs0 = tot_coefs lhs0
                   \<and> tot_coefs lhs' = tot_coefs lhs0" by blast
      have ip: "Ineq_parse simplify fkey params (NEquals a b)
                = Some (map_sum id (\<lambda>lhs'. (lhs', r0)) fr)"
        using gt assms(1) lp res True f Expr_of_const_m_one [OF assms(1)]
        by (cases fr) (auto simp: Ineq_parse_def)
      have h: "tot_coefs lhs0 < 2 * neg_coefs lhs0"
      proof -
        from True have "(of_nat (tot_coefs lhs0) :: rat) < of_nat (2 * neg_coefs lhs0)"
          by (simp add: field_simps)
        then show ?thesis by (simp only: of_nat_less_iff)
      qed
      have "\<exists>lhs0' rhs0. Inr (lhs0, neg_expr r0) = Inr (lhs0', rhs0)
              \<and> ((lhs_value v lhs0' = coefs_value v (symb2coef rhs0))
                 = (eval v a = eval v b))
              \<and> ((lhs_value v lhs = coefs_value v (symb2coef rhs)) = (eval v a = eval v b))
              \<and> (if (of_nat (tot_coefs lhs0') :: rat) / 2 < of_nat (neg_coefs lhs0')
                  then lhs_value v lhs = - lhs_value v lhs0'
                       \<and> coefs_value v (symb2coef rhs) = - coefs_value v (symb2coef rhs0)
                       \<and> neg_coefs lhs \<le> neg_coefs lhs0'
                  else lhs = lhs0' \<and> rhs = rhs0)
              \<and> 2 * neg_coefs lhs \<le> tot_coefs lhs"
        if "map_sum id (\<lambda>lhs'. (lhs', r0)) fr = Inr (lhs, rhs)" for lhs rhs
      proof -
        from that have fr: "fr = Inr lhs" and rr: "rhs = r0" by (cases fr; auto)+
        from fp [OF fr] have fv: "lhs_value v lhs = - lhs_value v lhs0"
          and neg: "neg_coefs lhs + neg_coefs lhs0 = tot_coefs lhs0"
          and tot: "tot_coefs lhs = tot_coefs lhs0" by simp_all
        have "(lhs_value v lhs = coefs_value v (symb2coef r0)) = (eval v a = eval v b)"
          using ev fv by auto
        moreover have "coefs_value v (symb2coef r0)
                       = - coefs_value v (symb2coef (neg_expr r0))"
          using nv by simp
        moreover have "neg_coefs lhs \<le> neg_coefs lhs0" using neg h by arith
        moreover have "2 * neg_coefs lhs \<le> tot_coefs lhs" using neg h tot by arith
        ultimately show ?thesis using eq0 fv True rr by auto
      qed
      then show ?thesis using un ip by blast
    next
      case False
      have ip: "Ineq_parse simplify fkey params (NEquals a b)
                = Some (Inr (lhs0, neg_expr r0))"
        using gt assms(1) lp res False tm Expr_of_const_m_one [OF assms(1)]
        by (auto simp: Ineq_parse_def)
      have "2 * neg_coefs lhs0 \<le> tot_coefs lhs0"
      proof -
        from False have "(of_nat (2 * neg_coefs lhs0) :: rat) \<le> of_nat (tot_coefs lhs0)"
          by (simp add: field_simps)
        then show ?thesis by (simp only: of_nat_le_iff)
      qed
      then show ?thesis using un ip eq0 False by auto
    qed
  qed
qed

lemma parse_example:
  "parse_unflipped simplify_const size {}
     (NPlus [NTimes [NInt (- 2), NSymbol ''x'' T_INT False],
             NTimes [NInt (- 3), NSymbol ''y'' T_INT False]])
     (NInt 4)
   = Some (Inr ([(NSymbol ''y'' T_INT False, \<lparr> expr_type = T_INT, symb2coef = [(NInt 1, - 3)] \<rparr>),
                 (NSymbol ''x'' T_INT False, \<lparr> expr_type = T_INT, symb2coef = [(NInt 1, - 2)] \<rparr>)],
                \<lparr> expr_type = T_INT, symb2coef = [(NInt 1, 4)] \<rparr>))
   \<and> Ineq_parse simplify_const size {}
     (NEquals (NPlus [NTimes [NInt (- 2), NSymbol ''x'' T_INT False],
                      NTimes [NInt (- 3), NSymbol ''y'' T_INT False]])
              (NInt 4))
   = Some (Inr ([(NSymbol ''y'' T_INT False, \<lparr> expr_type = T_INT, symb2coef = [(NInt 1, 3)] \<rparr>),
                 (NSymbol ''x'' T_INT False, \<lparr> expr_type = T_INT, symb2coef = [(NInt 1, 2)] \<rparr>)],
                \<lparr> expr_type = T_INT, symb2coef = [(NInt 1, - 4)] \<rparr>))"
  by code_simp

theorem parse_sign_flip_witness:
  "Ineq_parse simplify_const size {}
     (NEquals (NPlus [NTimes [NInt (- 2), NSymbol ''x'' T_INT False],
                      NTimes [NInt (- 3), NSymbol ''y'' T_INT False]])
              (NInt 4))
   = Some (Inr ([(NSymbol ''y'' T_INT False, \<lparr> expr_type = T_INT, symb2coef = [(NInt 1, 3)] \<rparr>),
                 (NSymbol ''x'' T_INT False, \<lparr> expr_type = T_INT, symb2coef = [(NInt 1, 2)] \<rparr>)],
                \<lparr> expr_type = T_INT, symb2coef = [(NInt 1, - 4)] \<rparr>))
   \<and> (\<forall>v. (lhs_value v
               [(NSymbol ''y'' T_INT False, \<lparr> expr_type = T_INT, symb2coef = [(NInt 1, 3)] \<rparr>),
                (NSymbol ''x'' T_INT False, \<lparr> expr_type = T_INT, symb2coef = [(NInt 1, 2)] \<rparr>)]
             = coefs_value v [(NInt 1, - 4)])
          = (eval v (NPlus [NTimes [NInt (- 2), NSymbol ''x'' T_INT False],
                            NTimes [NInt (- 3), NSymbol ''y'' T_INT False]])
             = eval v (NInt 4)))
   \<and> neg_coefs
         [(NSymbol ''y'' T_INT False, \<lparr> expr_type = T_INT, symb2coef = [(NInt 1, 3)] \<rparr>),
          (NSymbol ''x'' T_INT False, \<lparr> expr_type = T_INT, symb2coef = [(NInt 1, 2)] \<rparr>)]
       \<le> neg_coefs
         [(NSymbol ''y'' T_INT False, \<lparr> expr_type = T_INT, symb2coef = [(NInt 1, - 3)] \<rparr>),
          (NSymbol ''x'' T_INT False, \<lparr> expr_type = T_INT, symb2coef = [(NInt 1, - 2)] \<rparr>)]"
proof -
  let ?a = "NPlus [NTimes [NInt (- 2), NSymbol ''x'' T_INT False],
                   NTimes [NInt (- 3), NSymbol ''y'' T_INT False]]"
  let ?b = "NInt 4"
  let ?un = "[(NSymbol ''y'' T_INT False, \<lparr> expr_type = T_INT, symb2coef = [(NInt 1, - 3)] \<rparr>),
              (NSymbol ''x'' T_INT False, \<lparr> expr_type = T_INT, symb2coef = [(NInt 1, - 2)] \<rparr>)]"
  let ?fl = "[(NSymbol ''y'' T_INT False, \<lparr> expr_type = T_INT, symb2coef = [(NInt 1, 3)] \<rparr>),
             (NSymbol ''x'' T_INT False, \<lparr> expr_type = T_INT, symb2coef = [(NInt 1, 2)] \<rparr>)]"
  let ?r = "\<lparr> expr_type = T_INT, symb2coef = [(NInt 1, - 4)] \<rparr>"
  have a: "arith T_INT ?a" and b: "arith T_INT ?b" by simp_all
  have h: "(of_nat (tot_coefs ?un) :: rat) / 2 < of_nat (neg_coefs ?un)"
    by (simp add: tot_coefs_def neg_coefs_def lhs_coefs_def)
  have "((lhs_value v ?fl = coefs_value v (symb2coef ?r)) = (eval v ?a = eval v ?b))
        \<and> neg_coefs ?fl \<le> neg_coefs ?un" for v
  proof -
    from parse_sign_flip [OF _ a b simplify_const_typed simplify_const_sound, of size "{}" v]
    obtain u r where
      u: "parse_unflipped simplify_const size {} ?a ?b = Some u"
      and p: "Ineq_parse simplify_const size {} (NEquals ?a ?b) = Some r"
      and c: "\<And>lhs rhs. r = Inr (lhs, rhs) \<Longrightarrow>
                (\<exists>lhs0 rhs0. u = Inr (lhs0, rhs0)
                   \<and> ((lhs_value v lhs0 = coefs_value v (symb2coef rhs0))
                      = (eval v ?a = eval v ?b))
                   \<and> ((lhs_value v lhs = coefs_value v (symb2coef rhs))
                      = (eval v ?a = eval v ?b))
                   \<and> (if (of_nat (tot_coefs lhs0) :: rat) / 2 < of_nat (neg_coefs lhs0)
                       then lhs_value v lhs = - lhs_value v lhs0
                            \<and> coefs_value v (symb2coef rhs) = - coefs_value v (symb2coef rhs0)
                            \<and> neg_coefs lhs \<le> neg_coefs lhs0
                       else lhs = lhs0 \<and> rhs = rhs0)
                   \<and> 2 * neg_coefs lhs \<le> tot_coefs lhs)"
      by auto
    have r: "r = Inr (?fl, ?r)" using p parse_example by simp
    have u0: "u = Inr (?un, \<lparr> expr_type = T_INT, symb2coef = [(NInt 1, 4)] \<rparr>)"
      using u parse_example by simp
    from c [OF r] u0 h show ?thesis by auto
  qed
  then show ?thesis using parse_example by simp
qed

end
